theory Spec2Isabelle
  imports Main "HOL-Library.Sublist" "HOL-Library.AList"
begin

section \<open>CD\_Parser: the Xpath facade over a parsed XML or HTML tree\<close>

text \<open>
  The class \<^verbatim>\<open>Xpath\<close> of \<^verbatim>\<open>cd_parser/xpath.py\<close> keeps a parsed tree and an optional base URL.
  Every method formats an XPath expression, hands it to the tree's \<^verbatim>\<open>xpath\<close> method and, for
  the extraction helpers, post-processes the list that comes back.

  Python strings are modelled as \<^typ>\<open>string\<close>; a \<^typ>\<open>char\<close> stands for a code point below 256.
  Every expression of the class begins with \<^verbatim>\<open>//\<close>, which is evaluated from the root of the
  document that the stored element belongs to, so the field \<^verbatim>\<open>tree\<close> of the model holds the root
  element of that document.
\<close>

subsection \<open>Python string operations\<close>

definition isspace :: "char \<Rightarrow> bool" where
  \<comment> \<open>\<^verbatim>\<open>str.isspace\<close> on the code points below 256\<close>
  "isspace c =
     (let n = (of_char c :: nat)
      in (9 \<le> n \<and> n \<le> 13) \<or> (28 \<le> n \<and> n \<le> 32) \<or> n = 133 \<or> n = 160)"

definition strip :: "string \<Rightarrow> string" where
  \<comment> \<open>\<^verbatim>\<open>str.strip()\<close>: leading and trailing whitespace removed\<close>
  "strip s = rev (dropWhile isspace (rev (dropWhile isspace s)))"

definition startswith :: "string \<Rightarrow> string \<Rightarrow> bool" where
  "startswith s p = prefix p s"

fun contains :: "string \<Rightarrow> string \<Rightarrow> bool" where
  "contains [] sub = (sub = [])"
| "contains (c # cs) sub = (prefix sub (c # cs) \<or> contains cs sub)"

definition digit_char :: "nat \<Rightarrow> char" where
  "digit_char d = char_of (48 + d)"

function str_nat :: "nat \<Rightarrow> string" where
  "str_nat n = (if n < 10 then [digit_char n] else str_nat (n div 10) @ [digit_char (n mod 10)])"
  by pat_completeness auto
termination
  by (relation "measure id") auto

declare str_nat.simps [simp del]

definition str_int :: "int \<Rightarrow> string" where
  \<comment> \<open>how an f-string renders a Python int\<close>
  "str_int i = (if i < 0 then CHR ''-'' # str_nat (nat (- i)) else str_nat (nat i))"

subsection \<open>The tree, as lxml has it\<close>

text \<open>
  An lxml element has a tag, attributes, the text before its first child, its children, and
  the text that follows it inside its parent (its tail). \<^verbatim>\<open>Element.text\<close> and
  \<^verbatim>\<open>Element.tail\<close> are \<^verbatim>\<open>None\<close> when there is no such text. Comments and processing
  instructions are left out of the model.
\<close>

datatype element =
  Element (tag: string) (attrib: "(string \<times> string) list") (etext: "string option")
          (children: "element list") (etail: "string option")

definition get :: "element \<Rightarrow> string \<Rightarrow> string option" where
  \<comment> \<open>\<^verbatim>\<open>Element.get(key)\<close>: the attribute's value, or \<^verbatim>\<open>None\<close>\<close>
  "get e key = map_of (attrib e) key"

fun iter :: "element \<Rightarrow> element list" where
  \<comment> \<open>\<^verbatim>\<open>Element.iter()\<close>: the element and its descendants in document order\<close>
  "iter (Element tg at tx kids tail) = Element tg at tx kids tail # concat (map iter kids)"

datatype error =
    ValueError string
  | XPathEvalError
  | AttributeError
  | ParserError string

text \<open>What an XPath evaluation returns: elements, or strings (attribute values, text nodes).\<close>

datatype item = Node element | Str string

subsection \<open>The path-query evaluator\<close>

text \<open>
  Modelled from the spec: the path-query evaluator (\<^verbatim>\<open>tree.xpath\<close> of lxml) is an external
  collaborator of the repository, taking a tree and an expression string and returning the
  ordered sequence of matched nodes, attribute strings or text fragments, or failing on a
  malformed expression. The model decides the expressions that the templates of the class
  produce from plain names and literals, with the semantics of XPath 1.0:
  location paths of \<^verbatim>\<open>/\<close> and \<^verbatim>\<open>//\<close> steps over element names, \<^verbatim>\<open>*\<close>, a final \<^verbatim>\<open>@name\<close> or
  \<^verbatim>\<open>text()\<close>, and the predicates \<^verbatim>\<open>[@a='v']\<close>, \<^verbatim>\<open>[text()='v']\<close>, \<^verbatim>\<open>[contains(@a, 'v')]\<close>,
  \<^verbatim>\<open>[contains(text(), 'v')]\<close> and \<^verbatim>\<open>[n]\<close>. An expression that ends inside a string literal is
  malformed for every XPath processor. Every other expression is left to the parameter
  \<open>lx\<close>, which stands for the rest of the evaluator.
\<close>

datatype token =
    TSlash | TDSlash | TStar | TAt | TLBrack | TRBrack | TLParen | TRParen
  | TComma | TEq | TSpace | TName string | TNum nat | TLit string

definition sq :: char where
  "sq = CHR 0x27"

definition dq :: char where
  "dq = CHR 0x22"

definition is_digit :: "char \<Rightarrow> bool" where
  "is_digit c = (let n = (of_char c :: nat) in 48 \<le> n \<and> n \<le> 57)"

definition name_start :: "char \<Rightarrow> bool" where
  "name_start c =
     (let n = (of_char c :: nat) in (65 \<le> n \<and> n \<le> 90) \<or> (97 \<le> n \<and> n \<le> 122) \<or> n = 95)"

definition name_char :: "char \<Rightarrow> bool" where
  "name_char c = (name_start c \<or> is_digit c \<or> c = CHR ''-'' \<or> c = CHR ''.'')"

definition num_of :: "string \<Rightarrow> nat" where
  "num_of ds = foldl (\<lambda>a c. 10 * a + (of_char c - 48)) 0 ds"

definition xml_char :: "char \<Rightarrow> bool" where
  \<comment> \<open>the characters lxml accepts in a string argument\<close>
  "xml_char c = (let n = (of_char c :: nat) in 32 \<le> n \<or> n = 9 \<or> n = 10 \<or> n = 13)"

fun unterminated :: "char option \<Rightarrow> string \<Rightarrow> bool" where
  \<comment> \<open>does the expression end inside a string literal? The state is the open quote.\<close>
  "unterminated None [] = False"
| "unterminated (Some q) [] = True"
| "unterminated None (c # cs) = unterminated (if c = sq \<or> c = dq then Some c else None) cs"
| "unterminated (Some q) (c # cs) = unterminated (if c = q then None else Some q) cs"

fun single_token :: "char \<Rightarrow> token option" where
  "single_token c =
     (if c = CHR ''*'' then Some TStar
      else if c = CHR ''@'' then Some TAt
      else if c = CHR ''['' then Some TLBrack
      else if c = CHR '']'' then Some TRBrack
      else if c = CHR ''('' then Some TLParen
      else if c = CHR '')'' then Some TRParen
      else if c = CHR '','' then Some TComma
      else if c = CHR ''='' then Some TEq
      else if c = CHR '' '' then Some TSpace
      else None)"

function tokenize :: "string \<Rightarrow> token list option" where
  \<comment> \<open>Modelled from the spec: the tokens of the expressions the evaluator is modelled on;
      \<open>None\<close> for any other character\<close>
  "tokenize [] = Some []"
| "tokenize (c # cs) =
     (if c = CHR ''/'' then
        (if cs \<noteq> [] \<and> hd cs = CHR ''/'' then map_option ((#) TDSlash) (tokenize (tl cs))
         else map_option ((#) TSlash) (tokenize cs))
      else if single_token c \<noteq> None then map_option ((#) (the (single_token c))) (tokenize cs)
      else if c = sq \<or> c = dq then
        (if c \<in> set cs
         then map_option ((#) (TLit (takeWhile (\<lambda>x. x \<noteq> c) cs)))
                (tokenize (tl (dropWhile (\<lambda>x. x \<noteq> c) cs)))
         else None)
      else if name_start c then
        map_option ((#) (TName (c # takeWhile name_char cs))) (tokenize (dropWhile name_char cs))
      else if is_digit c then
        map_option ((#) (TNum (num_of (c # takeWhile is_digit cs)))) (tokenize (dropWhile is_digit cs))
      else None)"
  by pat_completeness auto
termination
proof (relation "measure length")
  show "wf (measure length)" by simp
next
  fix c :: char and cs :: string
  assume "cs \<noteq> [] \<and> hd cs = CHR ''/''"
  then show "(tl cs, c # cs) \<in> measure length" by (cases cs) auto
next
  fix c :: char and cs :: string
  show "(cs, c # cs) \<in> measure length" by simp
next
  fix c :: char and cs :: string
  show "(cs, c # cs) \<in> measure length" by simp
next
  fix c :: char and cs :: string
  have "length (tl (dropWhile (\<lambda>x. x \<noteq> c) cs)) \<le> length (dropWhile (\<lambda>x. x \<noteq> c) cs)" by simp
  also have "\<dots> \<le> length cs" by (rule length_dropWhile_le)
  finally show "(tl (dropWhile (\<lambda>x. x \<noteq> c) cs), c # cs) \<in> measure length" by simp
next
  fix c :: char and cs :: string
  have "length (dropWhile name_char cs) \<le> length cs" by (rule length_dropWhile_le)
  then show "(dropWhile name_char cs, c # cs) \<in> measure length" by simp
next
  fix c :: char and cs :: string
  have "length (dropWhile is_digit cs) \<le> length cs" by (rule length_dropWhile_le)
  then show "(dropWhile is_digit cs, c # cs) \<in> measure length" by simp
qed

datatype nodetest = NameTest string | AnyName | TextTest | AttrTest string

datatype operand = OpText | OpAttr string

datatype predicate = PEq operand string | PContains operand string | PIndex nat

datatype axis = Child | Descendant

datatype step = Step (s_axis: axis) (s_test: nodetest) (s_preds: "predicate list")

fun expect :: "token \<Rightarrow> token list \<Rightarrow> token list option" where
  "expect t [] = None"
| "expect t (x # xs) = (if x = t then Some xs else None)"

fun take_lit :: "token list \<Rightarrow> (string \<times> token list) option" where
  "take_lit (TLit v # ts) = Some (v, ts)"
| "take_lit ts = None"

fun skip_space :: "token list \<Rightarrow> token list" where
  "skip_space (TSpace # ts) = ts"
| "skip_space ts = ts"

fun parse_operand :: "token list \<Rightarrow> (operand \<times> token list) option" where
  "parse_operand (TAt # TName a # ts) = Some (OpAttr a, ts)"
| "parse_operand (TName f # TLParen # TRParen # ts) =
     (if f = ''text'' then Some (OpText, ts) else None)"
| "parse_operand ts = None"

definition parse_equals :: "token list \<Rightarrow> (predicate \<times> token list) option" where
  \<comment> \<open>\<^verbatim>\<open>operand = 'literal' ]\<close>\<close>
  "parse_equals ts =
     (case parse_operand ts of
        None \<Rightarrow> None
      | Some (opd, r1) \<Rightarrow>
          (case expect TEq r1 of
             None \<Rightarrow> None
           | Some r2 \<Rightarrow>
               (case take_lit r2 of
                  None \<Rightarrow> None
                | Some (v, r3) \<Rightarrow>
                    (case expect TRBrack r3 of
                       None \<Rightarrow> None
                     | Some r4 \<Rightarrow> Some (PEq opd v, r4)))))"

definition parse_contains :: "token list \<Rightarrow> (predicate \<times> token list) option" where
  \<comment> \<open>\<^verbatim>\<open>operand , 'literal' ) ]\<close>, after \<^verbatim>\<open>contains(\<close>\<close>
  "parse_contains ts =
     (case parse_operand ts of
        None \<Rightarrow> None
      | Some (opd, r1) \<Rightarrow>
          (case expect TComma r1 of
             None \<Rightarrow> None
           | Some r2 \<Rightarrow>
               (case take_lit (skip_space r2) of
                  None \<Rightarrow> None
                | Some (v, r3) \<Rightarrow>
                    (case expect TRParen r3 of
                       None \<Rightarrow> None
                     | Some r4 \<Rightarrow>
                         (case expect TRBrack r4 of
                            None \<Rightarrow> None
                          | Some r5 \<Rightarrow> Some (PContains opd v, r5))))))"

fun parse_pred_body :: "token list \<Rightarrow> (predicate \<times> token list) option" where
  "parse_pred_body (TNum n # ts) =
     (case expect TRBrack ts of None \<Rightarrow> None | Some r \<Rightarrow> Some (PIndex n, r))"
| "parse_pred_body (TName f # TLParen # ts) =
     (if f = ''contains'' then parse_contains ts else parse_equals (TName f # TLParen # ts))"
| "parse_pred_body ts = parse_equals ts"

lemma expect_shorter: "expect t ts = Some r \<Longrightarrow> length r < length ts"
  by (cases ts) (auto split: if_splits)

lemma take_lit_shorter: "take_lit ts = Some (v, r) \<Longrightarrow> length r < length ts"
  by (induction ts rule: take_lit.induct) auto

lemma skip_space_le: "length (skip_space ts) \<le> length ts"
  by (induction ts rule: skip_space.induct) auto

lemma parse_operand_shorter: "parse_operand ts = Some (opd, r) \<Longrightarrow> length r < length ts"
  by (induction ts rule: parse_operand.induct) (auto split: if_splits)

lemma parse_equals_shorter: "parse_equals ts = Some (p, r) \<Longrightarrow> length r < length ts"
  unfolding parse_equals_def
  by (auto split: option.splits prod.splits
           dest!: expect_shorter take_lit_shorter parse_operand_shorter)

lemma parse_contains_shorter: "parse_contains ts = Some (p, r) \<Longrightarrow> length r < length ts"
proof -
  assume a: "parse_contains ts = Some (p, r)"
  then obtain opd r1 r2 v r3 r4 where
    1: "parse_operand ts = Some (opd, r1)" and 2: "expect TComma r1 = Some r2" and
    3: "take_lit (skip_space r2) = Some (v, r3)" and 4: "expect TRParen r3 = Some r4" and
    5: "expect TRBrack r4 = Some r"
    unfolding parse_contains_def by (auto split: option.splits prod.splits)
  have "length r < length r4" using 5 by (rule expect_shorter)
  also have "\<dots> < length r3" using 4 by (rule expect_shorter)
  also have "\<dots> < length (skip_space r2)" using 3 by (rule take_lit_shorter)
  also have "\<dots> \<le> length r2" by (rule skip_space_le)
  also have "\<dots> < length r1" using 2 by (rule expect_shorter)
  also have "\<dots> < length ts" using 1 by (rule parse_operand_shorter)
  finally show ?thesis .
qed

lemma parse_pred_body_shorter: "parse_pred_body ts = Some (p, r) \<Longrightarrow> length r < length ts"
  by (induction ts rule: parse_pred_body.induct)
     (auto split: if_splits option.splits
           dest: expect_shorter parse_equals_shorter parse_contains_shorter)

function parse_preds :: "token list \<Rightarrow> (predicate list \<times> token list) option" where
  "parse_preds ts =
     (case ts of
        TLBrack # r \<Rightarrow>
          (case parse_pred_body r of
             None \<Rightarrow> None
           | Some (p, r1) \<Rightarrow>
               (case parse_preds r1 of None \<Rightarrow> None | Some (ps, r2) \<Rightarrow> Some (p # ps, r2)))
      | _ \<Rightarrow> Some ([], ts))"
  by pat_completeness auto
termination
  by (relation "measure length") (auto dest: parse_pred_body_shorter)

fun parse_test :: "token list \<Rightarrow> (nodetest \<times> token list) option" where
  "parse_test (TStar # ts) = Some (AnyName, ts)"
| "parse_test (TAt # TName a # ts) = Some (AttrTest a, ts)"
| "parse_test (TName f # TLParen # ts) =
     (if f = ''text'' then (case expect TRParen ts of None \<Rightarrow> None | Some r \<Rightarrow> Some (TextTest, r))
      else None)"
| "parse_test (TName n # ts) = Some (NameTest n, ts)"
| "parse_test ts = None"

fun axis_of :: "token \<Rightarrow> axis option" where
  "axis_of TSlash = Some Child"
| "axis_of TDSlash = Some Descendant"
| "axis_of t = None"

fun element_test :: "nodetest \<Rightarrow> bool" where
  "element_test (NameTest n) = True"
| "element_test AnyName = True"
| "element_test TextTest = False"
| "element_test (AttrTest a) = False"

lemma parse_test_shorter: "parse_test ts = Some (nt, r) \<Longrightarrow> length r < length ts"
  by (induction ts rule: parse_test.induct)
     (auto split: if_splits option.splits dest: expect_shorter)

declare parse_preds.simps [simp del]

lemma parse_preds_le: "parse_preds ts = Some (ps, r) \<Longrightarrow> length r \<le> length ts"
proof (induction ts arbitrary: ps r rule: parse_preds.induct)
  case (1 ts)
  note prem = "1.prems" [unfolded parse_preds.simps [of ts]]
  show ?case
  proof (cases ts)
    case Nil
    with prem show ?thesis by simp
  next
    case (Cons t r0)
    show ?thesis
    proof (cases "t = TLBrack")
      case False
      with Cons prem show ?thesis by (cases t) auto
    next
      case True
      with Cons prem obtain p r1 ps' where
        b: "parse_pred_body r0 = Some (p, r1)" and rest: "parse_preds r1 = Some (ps', r)"
        by (auto split: option.splits)
      have "length r \<le> length r1"
        using "1.IH" [OF Cons True b refl rest] .
      moreover have "length r1 < length r0" using b by (rule parse_pred_body_shorter)
      ultimately show ?thesis using Cons by simp
    qed
  qed
qed

function parse_steps :: "token list \<Rightarrow> step list option" where
  "parse_steps ts =
     (case ts of
        [] \<Rightarrow> Some []
      | t # r \<Rightarrow>
          (case axis_of t of
             None \<Rightarrow> None
           | Some ax \<Rightarrow>
               (case parse_test r of
                  None \<Rightarrow> None
                | Some (nt, r1) \<Rightarrow>
                    if element_test nt then
                      (case parse_preds r1 of
                         None \<Rightarrow> None
                       | Some (ps, r2) \<Rightarrow>
                           (case parse_steps r2 of
                              None \<Rightarrow> None
                            | Some ss \<Rightarrow> Some (Step ax nt ps # ss)))
                    else if r1 = [] then Some [Step ax nt []]
                    else None)))"
  by pat_completeness auto
termination
proof (relation "measure length")
  show "wf (measure length)" by simp
next
  fix ts :: "token list" and t r ax x nt r1 y ps r2
  assume "ts = t # r" and "parse_test r = Some x" and "(nt, r1) = x"
    and "parse_preds r1 = Some y" and "(ps, r2) = y"
  then have "length r1 < length r" and "length r2 \<le> length r1" and "ts = t # r"
    by (auto dest: parse_test_shorter parse_preds_le)
  then show "(r2, ts) \<in> measure length" by simp
qed

declare parse_steps.simps [simp del]

definition parse_path :: "string \<Rightarrow> step list option" where
  \<comment> \<open>Modelled from the spec: the location paths the evaluator is modelled on;
      \<open>None\<close> for every other expression\<close>
  "parse_path e =
     (case tokenize e of
        None \<Rightarrow> None
      | Some ts \<Rightarrow> (case parse_steps ts of None \<Rightarrow> None | Some [] \<Rightarrow> None | Some (s # ss) \<Rightarrow> Some (s # ss)))"

text \<open>Evaluation of a parsed path over the tree.\<close>

fun opt_list :: "'a option \<Rightarrow> 'a list" where
  "opt_list None = []"
| "opt_list (Some x) = [x]"

definition child_texts :: "element \<Rightarrow> string list" where
  \<comment> \<open>the text nodes that are children of the element: its text, and the tails of its children\<close>
  "child_texts e = opt_list (etext e) @ concat (map (\<lambda>c. opt_list (etail c)) (children e))"

fun operand_strings :: "operand \<Rightarrow> element \<Rightarrow> string list" where
  \<comment> \<open>the string values of the node set that the operand selects from the element\<close>
  "operand_strings OpText e = child_texts e"
| "operand_strings (OpAttr a) e = opt_list (get e a)"

definition string_value :: "operand \<Rightarrow> element \<Rightarrow> string" where
  \<comment> \<open>\<^verbatim>\<open>string()\<close> of a node set: the value of its first node, or the empty string\<close>
  "string_value opd e = (case operand_strings opd e of [] \<Rightarrow> [] | s # _ \<Rightarrow> s)"

fun test_elem :: "nodetest \<Rightarrow> element \<Rightarrow> bool" where
  "test_elem (NameTest n) e = (tag e = n)"
| "test_elem AnyName e = True"
| "test_elem TextTest e = False"
| "test_elem (AttrTest a) e = False"

fun apply_pred :: "predicate \<Rightarrow> (nat \<times> element) list \<Rightarrow> (nat \<times> element) list" where
  \<comment> \<open>one predicate, over the candidates of one context node in document order\<close>
  "apply_pred (PEq opd v) xs = filter (\<lambda>(j, c). v \<in> set (operand_strings opd c)) xs"
| "apply_pred (PContains opd v) xs = filter (\<lambda>(j, c). contains (string_value opd c) v) xs"
| "apply_pred (PIndex n) xs = (if 0 < n \<and> n \<le> length xs then [xs ! (n - 1)] else [])"

definition survivors :: "step \<Rightarrow> element list \<Rightarrow> nat list" where
  \<comment> \<open>the positions of the children of one context node that the step selects\<close>
  "survivors st kids =
     map fst (fold apply_pred (s_preds st)
                (filter (\<lambda>(j, c). test_elem (s_test st) c) (enumerate 0 kids)))"

definition next_states :: "step list \<Rightarrow> nat list \<Rightarrow> element list \<Rightarrow> nat \<Rightarrow> nat list" where
  \<comment> \<open>State \<open>k\<close> at a node: steps \<open>k\<close> onwards remain, with the node as context. The \<open>j\<close>-th
      child keeps every pending \<^verbatim>\<open>//\<close> step and advances past each step that selects it.\<close>
  "next_states steps S kids j =
     filter (\<lambda>k. (k < length steps \<and> k \<in> set S \<and> s_axis (steps ! k) = Descendant) \<or>
                 (0 < k \<and> (k - 1) \<in> set S \<and> j \<in> set (survivors (steps ! (k - 1)) kids)))
            [0 ..< Suc (length steps)]"

definition final_test :: "step list \<Rightarrow> nat list \<Rightarrow> nodetest option" where
  \<comment> \<open>the test of the last step, when that step is pending at the node\<close>
  "final_test steps S =
     (if steps \<noteq> [] \<and> (length steps - 1) \<in> set S then Some (s_test (last steps)) else None)"

fun walk :: "step list \<Rightarrow> nat list \<Rightarrow> element \<Rightarrow> item list"
  and walk_kids :: "step list \<Rightarrow> nat list \<Rightarrow> element list \<Rightarrow> nat \<Rightarrow> element list \<Rightarrow> item list"
where
  \<comment> \<open>Modelled from the spec: one pass over the tree in document order. \<open>walk\<close> gives what is
      selected below an element whose pending steps are \<open>S\<close>: its attribute or text children
      when the last step asks for them, then, child by child, the child itself when it
      completes the path, what is selected below it, and its tail.\<close>
  "walk steps S (Element tg at tx kids tail) =
     (case final_test steps S of
        Some (AttrTest a) \<Rightarrow> map Str (opt_list (map_of at a))
      | Some TextTest \<Rightarrow> map Str (opt_list tx)
      | _ \<Rightarrow> [])
     @ walk_kids steps S kids 0 kids"
| "walk_kids steps S kids j [] = []"
| "walk_kids steps S kids j (c # cs) =
     (if length steps \<in> set (next_states steps S kids j) then [Node c] else [])
     @ walk steps (next_states steps S kids j) c
     @ (if final_test steps S = Some TextTest then map Str (opt_list (etail c)) else [])
     @ walk_kids steps S kids (Suc j) cs"

definition eval_path :: "step list \<Rightarrow> element \<Rightarrow> item list" where
  \<comment> \<open>Modelled from the spec: the ordered sequence of matches, without duplicates, found
      from the document root, whose only child is the root element\<close>
  "eval_path steps t = walk_kids steps [0] [t] 0 [t]"

definition xpath ::
  "(element \<Rightarrow> string \<Rightarrow> error + item list) \<Rightarrow> element \<Rightarrow> string \<Rightarrow> error + item list" where
  \<comment> \<open>Modelled from the spec: \<^verbatim>\<open>tree.xpath(e)\<close>. An expression that ends inside a literal
      is an error, a modelled path is evaluated, and anything else is left to \<open>lx\<close>.\<close>
  "xpath lx t e =
     (if \<not> list_all xml_char e then lx t e
      else if unterminated None e then Inl XPathEvalError
      else (case parse_path e of None \<Rightarrow> lx t e | Some steps \<Rightarrow> Inr (eval_path steps t)))"

subsection \<open>The class Xpath\<close>

record Xpath =
  tree :: element
  base_url :: "string option"

text \<open>
  \<^verbatim>\<open>__init__(content, content_type, base_url)\<close>. The two parsers (\<^verbatim>\<open>etree.fromstring\<close> and
  \<^verbatim>\<open>html.fromstring\<close> of lxml) are parameters; each returns the tree or fails.
\<close>

definition init ::
  "(string \<Rightarrow> error + element) \<Rightarrow> (string \<Rightarrow> error + element) \<Rightarrow>
   string \<Rightarrow> string \<Rightarrow> string option \<Rightarrow> error + Xpath" where
  "init etree_fromstring html_fromstring content content_type url =
     (if content_type = ''xml'' then
        (case etree_fromstring content of
           Inl err \<Rightarrow> Inl err
         | Inr t \<Rightarrow> Inr \<lparr>tree = t, base_url = url\<rparr>)
      else if content_type = ''html'' then
        (case html_fromstring content of
           Inl err \<Rightarrow> Inl err
         | Inr t \<Rightarrow> Inr \<lparr>tree = t, base_url = url\<rparr>)
      else Inl (ValueError ''Invalid content_type. Choose either 'xml' or 'html'.''))"

definition get_nodes_by_tag where
  "get_nodes_by_tag lx self tagname = xpath lx (tree self) (''//'' @ tagname)"

definition get_nodes_by_attribute where
  "get_nodes_by_attribute lx self tagname attribute val =
     xpath lx (tree self) (''//'' @ tagname @ ''[@'' @ attribute @ ''='' @ [sq] @ val @ [sq] @ '']'')"

definition get_nodes_by_text where
  "get_nodes_by_text lx self tagname txt =
     xpath lx (tree self) (''//'' @ tagname @ ''[text()='' @ [sq] @ txt @ [sq] @ '']'')"

definition get_nth_child where
  "get_nth_child lx self parent child n =
     xpath lx (tree self) (''//'' @ parent @ ''/'' @ child @ ''['' @ str_int n @ '']'')"

definition get_nodes_containing_text where
  "get_nodes_containing_text lx self tagname txt =
     xpath lx (tree self) (''//'' @ tagname @ ''[contains(text(), '' @ [sq] @ txt @ [sq] @ '')]'')"

definition get_nodes_by_attribute_containing_text where
  "get_nodes_by_attribute_containing_text lx self tagname attribute txt =
     xpath lx (tree self)
       (''//'' @ tagname @ ''[contains(@'' @ attribute @ '', '' @ [sq] @ txt @ [sq] @ '')]'')"

definition get_nodes_by_class where
  "get_nodes_by_class lx self classname =
     xpath lx (tree self) (''//*[@class='' @ [sq] @ classname @ [sq] @ '']'')"

definition get_nodes_by_id where
  "get_nodes_by_id lx self element_id =
     xpath lx (tree self) (''//*[@id='' @ [sq] @ element_id @ [sq] @ '']'')"

definition get_nodes_by_data_attribute where
  "get_nodes_by_data_attribute lx self attribute val =
     xpath lx (tree self) (''//*[@data-'' @ attribute @ ''='' @ [sq] @ val @ [sq] @ '']'')"

definition get_nodes_by_name where
  "get_nodes_by_name lx self name =
     xpath lx (tree self) (''//*[@name='' @ [sq] @ name @ [sq] @ '']'')"

fun strip_texts :: "item list \<Rightarrow> error + string list" where
  \<comment> \<open>\<^verbatim>\<open>[text.strip() for text in articles if text.strip()]\<close>; an element has no \<^verbatim>\<open>strip\<close>\<close>
  "strip_texts [] = Inr []"
| "strip_texts (Node e # xs) = Inl AttributeError"
| "strip_texts (Str s # xs) =
     (case strip_texts xs of
        Inl err \<Rightarrow> Inl err
      | Inr r \<Rightarrow> Inr (if strip s \<noteq> [] then strip s # r else r))"

definition get_article_text :: "(element \<Rightarrow> string \<Rightarrow> error + item list) \<Rightarrow> Xpath \<Rightarrow> error + string list" where
  "get_article_text lx self =
     (case xpath lx (tree self) ''//article//text()'' of
        Inl err \<Rightarrow> Inl err
      | Inr articles \<Rightarrow> strip_texts articles)"


definition get_links where
  "get_links lx self = xpath lx (tree self) ''//a/@href''"

text \<open>
  The dict comprehension of \<^verbatim>\<open>get_links_with_text\<close>. A Python dict keeps the position of a
  key's first insertion and the value of its last, as \<^const>\<open>AList.update\<close> does.
\<close>

fun links_dict ::
  "item list \<Rightarrow> (string \<times> string option) list \<Rightarrow> error + (string \<times> string option) list" where
  "links_dict [] d = Inr d"
| "links_dict (Str s # xs) d = Inl AttributeError"
| "links_dict (Node anchor # xs) d =
     (case etext anchor of
        None \<Rightarrow> links_dict xs d
      | Some t \<Rightarrow>
          if t = [] then links_dict xs d
          else links_dict xs (AList.update t (get anchor ''href'') d))"

definition get_links_with_text where
  "get_links_with_text lx self =
     (case xpath lx (tree self) ''//a'' of
        Inl err \<Rightarrow> Inl err
      | Inr anchors \<Rightarrow> links_dict anchors [])"

fun select_links :: "(string \<Rightarrow> bool) \<Rightarrow> item list \<Rightarrow> error + item list" where
  \<comment> \<open>\<^verbatim>\<open>[link for link in all_links if cond(link)]\<close>, where the condition calls
      \<^verbatim>\<open>link.startswith\<close>, which an element does not have\<close>
  "select_links cond [] = Inr []"
| "select_links cond (Node e # xs) = Inl AttributeError"
| "select_links cond (Str s # xs) =
     (case select_links cond xs of
        Inl err \<Rightarrow> Inl err
      | Inr r \<Rightarrow> Inr (if cond s then Str s # r else r))"

fun falsy :: "string option \<Rightarrow> bool" where
  \<comment> \<open>\<^verbatim>\<open>not self.base_url\<close>\<close>
  "falsy None = True"
| "falsy (Some s) = (s = [])"

definition get_outbound_links_only where
  "get_outbound_links_only lx self =
     (case get_links lx self of
        Inl err \<Rightarrow> Inl err
      | Inr all_links \<Rightarrow>
          if falsy (base_url self) then
            select_links (\<lambda>link. startswith link ''http://'' \<or> startswith link ''https://'') all_links
          else
            select_links (\<lambda>link. (startswith link ''http://'' \<or> startswith link ''https://'')
                                  \<and> \<not> startswith link (the (base_url self))) all_links)"

definition get_internal_links_only where
  "get_internal_links_only lx self =
     (case get_links lx self of
        Inl err \<Rightarrow> Inl err
      | Inr all_links \<Rightarrow>
          if falsy (base_url self) then
            Inl (ValueError ''Base URL is not provided. Cannot determine internal links.'')
          else select_links (\<lambda>link. startswith link (the (base_url self))) all_links)"

subsection \<open>Calls in sequence\<close>




























subsection \<open>Example documents and collaborators\<close>

definition reject_rest :: "element \<Rightarrow> string \<Rightarrow> error + item list" where
  \<comment> \<open>an evaluator that rejects every expression outside the modelled ones\<close>
  "reject_rest t e = Inl XPathEvalError"

definition failing_parser :: "string \<Rightarrow> error + element" where
  "failing_parser content = Inl (ParserError content)"

definition links_doc :: element where
  \<comment> \<open>three anchors, with the hrefs of the spec's example\<close>
  "links_doc =
     Element ''html'' [] None
       [Element ''body'' [] None
          [Element ''a'' [(''href'', ''https://example.com/a'')] (Some ''A'') [] None,
           Element ''a'' [(''href'', ''https://other.com/b'')] (Some ''B'') [] None,
           Element ''a'' [(''href'', ''/relative'')] (Some ''C'') [] None]
          None]
       None"

definition links_parser :: "string \<Rightarrow> error + element" where
  \<comment> \<open>a parser whose result is the example document\<close>
  "links_parser content = Inr links_doc"

definition links_path :: "step list" where
  "links_path = [Step Descendant (NameTest ''a'') [], Step Child (AttrTest ''href'') []]"

definition class_doc :: element where
  \<comment> \<open>a \<^verbatim>\<open>div\<close> with two classes, a \<^verbatim>\<open>p\<close> and a \<^verbatim>\<open>span\<close> with one\<close>
  "class_doc =
     Element ''html'' [] None
       [Element ''body'' [] None
          [Element ''div'' [(''class'', ''x y''), (''id'', ''x'')] (Some ''both'') [] None,
           Element ''p'' [(''class'', ''x'')] (Some ''one'') [] None,
           Element ''span'' [(''class'', ''y'')] (Some ''other'') [] None]
          None]
       None"

definition anchors :: "element \<Rightarrow> element list" where
  \<comment> \<open>the \<^verbatim>\<open>a\<close> elements of the document, in document order\<close>
  "anchors t = filter (\<lambda>e. tag e = ''a'') (iter t)"

definition links_of :: "element \<Rightarrow> string list" where
  \<comment> \<open>the \<^verbatim>\<open>href\<close> values of the anchors that have one, in document order\<close>
  "links_of t = concat (map (\<lambda>a. opt_list (get a ''href'')) (anchors t))"

definition put_anchor ::
  "element \<Rightarrow> (string \<times> string option) list \<Rightarrow> (string \<times> string option) list" where
  \<comment> \<open>what one anchor contributes to the dict of \<^verbatim>\<open>get_links_with_text\<close>\<close>
  "put_anchor a d =
     (case etext a of
        None \<Rightarrow> d
      | Some t \<Rightarrow> if t = [] then d else AList.update t (get a ''href'') d)"

definition blank_anchor_doc :: element where
  \<comment> \<open>\<^verbatim>\<open><html><body><a href="/x"> </a></body></html>\<close>\<close>
  "blank_anchor_doc =
     Element ''html'' [] None
       [Element ''body'' [] None [Element ''a'' [(''href'', ''/x'')] (Some '' '') [] None] None]
       None"

definition home_1 :: element where
  "home_1 = Element ''a'' [(''href'', ''/1'')] (Some ''Home'') [] None"

definition home_2 :: element where
  "home_2 = Element ''a'' [(''href'', ''/2'')] (Some ''Home'') [] None"

definition same_text_doc :: element where
  \<comment> \<open>two anchors with the text \<^verbatim>\<open>Home\<close> and different hrefs\<close>
  "same_text_doc = Element ''html'' [] None [Element ''body'' [] None [home_1, home_2] None] None"

definition bold_anchor :: element where
  \<comment> \<open>\<^verbatim>\<open><a href="/x"><b>bold</b></a>\<close>: the visible text is inside a child\<close>
  "bold_anchor = Element ''a'' [(''href'', ''/x'')] None [Element ''b'' [] (Some ''bold'') [] None] None"

definition plain_anchor :: element where
  \<comment> \<open>\<^verbatim>\<open><a>plain</a>\<close>: text, but no href\<close>
  "plain_anchor = Element ''a'' [] (Some ''plain'') [] None"

definition nested_text_doc :: element where
  "nested_text_doc =
     Element ''html'' [] None [Element ''body'' [] None [bold_anchor, plain_anchor] None] None"

fun texts_of :: "element \<Rightarrow> string list" where
  \<comment> \<open>the text nodes inside an element, in document order\<close>
  "texts_of (Element tg at tx kids tail) =
     opt_list tx @ concat (map (\<lambda>c. texts_of c @ opt_list (etail c)) kids)"

fun article_texts :: "element \<Rightarrow> string list" where
  \<comment> \<open>the text nodes under any \<^verbatim>\<open>article\<close> element, in document order, each once\<close>
  "article_texts (Element tg at tx kids tail) =
     (if tg = ''article'' then texts_of (Element tg at tx kids tail)
      else concat (map article_texts kids))"

definition trimmed :: "string \<Rightarrow> string \<Rightarrow> bool" where
  \<comment> \<open>\<open>u\<close> is \<open>t\<close> without its surrounding whitespace: \<open>t\<close> is \<open>u\<close> between two runs of
      whitespace, and \<open>u\<close> neither begins nor ends with whitespace\<close>
  "trimmed t u =
     (\<exists>l \<in> set (prefixes t). \<exists>r \<in> set (suffixes t).
        t = l @ u @ r \<and> list_all isspace l \<and> list_all isspace r \<and>
        (u = [] \<or> (\<not> isspace (hd u) \<and> \<not> isspace (last u))))"

definition article_path :: "step list" where
  "article_path = [Step Descendant (NameTest ''article'') [], Step Descendant TextTest []]"

definition article_doc :: element where
  \<comment> \<open>an article with a paragraph and a nested article, and a paragraph outside\<close>
  "article_doc =
     Element ''html'' [] None
       [Element ''body'' [] (Some '' '')
          [Element ''p'' [] (Some ''out'') [] (Some '' ''),
           Element ''article'' [] (Some ''  Title '')
             [Element ''p'' [] (Some '' para '') [] (Some '' tail ''),
              Element ''article'' [] (Some ''inner'') [] (Some ''   '')]
             None]
          None]
       None"

definition odd_quotes :: "string \<Rightarrow> bool" where
  \<comment> \<open>arguments that lxml accepts, without a double quote and with an odd number of single
      quotes\<close>
  "odd_quotes s = (list_all xml_char s \<and> dq \<notin> set s \<and> odd (count_list s sq))"

text \<open>Notions used to state what a path selects.\<close>

fun holds :: "predicate \<Rightarrow> element \<Rightarrow> bool" where
  "holds (PEq opd v) c = (v \<in> set (operand_strings opd c))"
| "holds (PContains opd v) c = contains (string_value opd c) v"
| "holds (PIndex n) c = True"

fun positional :: "predicate \<Rightarrow> bool" where
  "positional (PIndex n) = True"
| "positional p = False"

definition selects :: "step \<Rightarrow> element \<Rightarrow> bool" where
  "selects st e = (test_elem (s_test st) e \<and> (\<forall>p \<in> set (s_preds st). holds p e))"

section \<open>Properties\<close>

subsection \<open>What a single \<^verbatim>\<open>//\<close> step selects\<close>

lemma apply_pred_bool:
  "\<not> positional p \<Longrightarrow> apply_pred p xs = filter (\<lambda>(j, c). holds p c) xs"
  by (cases p) auto

lemma fold_apply_pred_bool:
  "\<forall>p \<in> set ps. \<not> positional p \<Longrightarrow>
     fold apply_pred ps xs = filter (\<lambda>(j, c). \<forall>p \<in> set ps. holds p c) xs"
proof (induction ps arbitrary: xs)
  case Nil
  then show ?case by simp
next
  case (Cons p ps)
  have "fold apply_pred (p # ps) xs = fold apply_pred ps (apply_pred p xs)" by simp
  also have "\<dots> = filter (\<lambda>(j, c). \<forall>q \<in> set ps. holds q c) (filter (\<lambda>(j, c). holds p c) xs)"
    using Cons by (simp add: apply_pred_bool)
  also have "\<dots> = filter (\<lambda>(j, c). \<forall>q \<in> set (p # ps). holds q c) xs"
    by (induction xs) auto
  finally show ?case .
qed

lemma survivors_bool:
  assumes "\<forall>p \<in> set (s_preds st). \<not> positional p"
  shows "j \<in> set (survivors st kids) \<longleftrightarrow> j < length kids \<and> selects st (kids ! j)"
proof -
  have "survivors st kids =
          map fst (filter (\<lambda>(j, c). selects st c) (enumerate 0 kids))"
    unfolding survivors_def fold_apply_pred_bool [OF assms] selects_def
    by (simp add: case_prod_unfold)
  then show ?thesis by (force simp: in_set_enumerate_eq)
qed

lemma drop_eq_ConsD:
  assumes "c # cs = drop j kids"
  shows "j < length kids" and "c = kids ! j" and "cs = drop (Suc j) kids"
proof -
  show j: "j < length kids" using assms by (cases "j < length kids") auto
  have "kids ! j # drop (Suc j) kids = c # cs"
    using Cons_nth_drop_Suc [OF j] assms by simp
  then show "c = kids ! j" and "cs = drop (Suc j) kids" by simp_all
qed

lemma iter_unfold: "iter e = e # concat (map iter (children e))"
  by (cases e) simp

lemma descendant_walk:
  assumes ax: "s_axis st = Descendant" and el: "element_test (s_test st)"
    and bool: "\<forall>p \<in> set (s_preds st). \<not> positional p"
  shows "0 \<in> set S \<Longrightarrow>
           walk [st] S e = map Node (filter (selects st) (concat (map iter (children e))))"
    and "0 \<in> set S \<Longrightarrow> cs = drop j kids \<Longrightarrow>
           walk_kids [st] S kids j cs = map Node (filter (selects st) (concat (map iter cs)))"
proof (induction "[st]" S e and "[st]" S kids j cs rule: walk_walk_kids.induct)
  case (1 S tg at tx kids tail)
  have "final_test [st] S = Some (s_test st)" using "1.prems" by (simp add: final_test_def)
  then have "(case final_test [st] S of
             Some (AttrTest a) \<Rightarrow> map Str (opt_list (map_of at a))
           | Some TextTest \<Rightarrow> map Str (opt_list tx)
           | _ \<Rightarrow> []) = []"
    using el by (cases "s_test st") simp_all
  then show ?case using 1 by simp
next
  case (2 S kids j)
  then show ?case by simp
next
  case (3 S kids j c cs)
  let ?S' = "next_states [st] S kids j"
  note j = drop_eq_ConsD(1) [OF "3.prems"(2)] and c = drop_eq_ConsD(2) [OF "3.prems"(2)]
    and cs = drop_eq_ConsD(3) [OF "3.prems"(2)]
  have zero: "0 \<in> set ?S'" using "3.prems"(1) ax by (simp add: next_states_def)
  have one: "length [st] \<in> set ?S' \<longleftrightarrow> selects st c"
    using "3.prems"(1) j c by (simp add: next_states_def survivors_bool [OF bool])
  have nt: "final_test [st] S \<noteq> Some TextTest"
    using "3.prems"(1) el by (auto simp: final_test_def)
  have "walk_kids [st] S kids j (c # cs) =
          (if selects st c then [Node c] else []) @ walk [st] ?S' c @ walk_kids [st] S kids (Suc j) cs"
    using one nt by simp
  also have "\<dots> = (if selects st c then [Node c] else [])
        @ map Node (filter (selects st) (concat (map iter (children c))))
        @ map Node (filter (selects st) (concat (map iter cs)))"
    using "3.hyps"(1) [OF zero] "3.hyps"(2) [OF "3.prems"(1) cs] by simp
  also have "\<dots> = map Node (filter (selects st) (concat (map iter (c # cs))))"
    by (simp add: iter_unfold [of c])
  finally show ?case .
qed

lemma eval_descendant_step:
  assumes "s_axis st = Descendant" and "element_test (s_test st)"
    and "\<forall>p \<in> set (s_preds st). \<not> positional p"
  shows "eval_path [st] t = map Node (filter (selects st) (iter t))"
proof -
  have "walk_kids [st] [0] [t] 0 [t] = map Node (filter (selects st) (concat (map iter [t])))"
    by (rule descendant_walk(2) [OF assms]) simp_all
  then show ?thesis by (simp add: eval_path_def)
qed

subsection \<open>The link list\<close>

lemma parse_links: "parse_path ''//a/@href'' = Some links_path"
  unfolding links_path_def by code_simp

lemma xpath_links: "xpath lx t ''//a/@href'' = Inr (eval_path links_path t)"
proof -
  have 1: "list_all xml_char ''//a/@href''" by code_simp
  have 2: "\<not> unterminated None ''//a/@href''" by code_simp
  show ?thesis unfolding xpath_def using 1 2 by (simp add: parse_links)
qed

lemma apply_pred_Nil: "apply_pred p [] = []"
  by (cases p) auto

lemma fold_apply_pred_Nil: "fold apply_pred ps [] = []"
  by (induction ps) (auto simp: apply_pred_Nil)

lemma survivors_non_element: "\<not> element_test (s_test st) \<Longrightarrow> survivors st kids = []"
proof -
  assume a: "\<not> element_test (s_test st)"
  have "\<And>c. \<not> test_elem (s_test st) c" using a by (cases "s_test st") auto
  then have "filter (\<lambda>(j, c). test_elem (s_test st) c) (enumerate 0 kids) = []"
    by (auto simp: filter_empty_conv)
  then show ?thesis unfolding survivors_def by (simp add: fold_apply_pred_Nil)
qed

lemma no_final_state:
  assumes "steps \<noteq> []" and "\<not> element_test (s_test (last steps))"
  shows "length steps \<notin> set (next_states steps S kids j)"
proof -
  have "steps ! (length steps - 1) = last steps" using assms(1) by (simp add: last_conv_nth)
  then have "survivors (steps ! (length steps - 1)) kids = []"
    using assms(2) by (simp add: survivors_non_element)
  then show ?thesis unfolding next_states_def by simp
qed

lemma concat_filter_iter:
  "concat (map f (filter P (concat (map iter kids)))) =
     concat (map (\<lambda>c. concat (map f (filter P (iter c)))) kids)"
  by (induction kids) simp_all

lemma links_of_unfold:
  "links_of e =
     (if tag e = ''a'' then opt_list (get e ''href'') else []) @ concat (map links_of (children e))"
proof -
  have "links_of e =
      concat (map (\<lambda>a. opt_list (get a ''href''))
        (filter (\<lambda>x. tag x = ''a'') (e # concat (map iter (children e)))))"
    unfolding links_of_def anchors_def by (subst iter_unfold) simp
  also have "\<dots> = (if tag e = ''a'' then opt_list (get e ''href'') else [])
      @ concat (map (\<lambda>a. opt_list (get a ''href''))
          (filter (\<lambda>x. tag x = ''a'') (concat (map iter (children e)))))"
    by simp
  also have "concat (map (\<lambda>a. opt_list (get a ''href''))
          (filter (\<lambda>x. tag x = ''a'') (concat (map iter (children e))))) =
      concat (map links_of (children e))"
    unfolding concat_filter_iter links_of_def anchors_def ..
  finally show ?thesis .
qed

lemma links_final:
  "final_test links_path S = (if 1 \<in> set S then Some (AttrTest ''href'') else None)"
  by (simp add: final_test_def links_path_def)

lemma links_no_final: "length links_path \<notin> set (next_states links_path S kids j)"
  by (rule no_final_state) (simp_all add: links_path_def)

lemma links_walk:
  "0 \<in> set S \<Longrightarrow>
     walk links_path S e =
       map Str ((if 1 \<in> set S then opt_list (get e ''href'') else [])
                @ concat (map links_of (children e)))"
  "0 \<in> set S \<Longrightarrow> cs = drop j kids \<Longrightarrow>
     walk_kids links_path S kids j cs = map Str (concat (map links_of cs))"
proof (induction links_path S e and links_path S kids j cs rule: walk_walk_kids.induct)
  case (1 S tg at tx kids tail)
  then show ?case by (simp add: links_final get_def)
next
  case (2 S kids j)
  then show ?case by simp
next
  case (3 S kids j c cs)
  let ?S' = "next_states links_path S kids j"
  let ?st = "Step Descendant (NameTest ''a'') []"
  note j = drop_eq_ConsD(1) [OF "3.prems"(2)] and c = drop_eq_ConsD(2) [OF "3.prems"(2)]
    and cs = drop_eq_ConsD(3) [OF "3.prems"(2)]
  have zero: "0 \<in> set ?S'" using "3.prems"(1) by (simp add: next_states_def links_path_def)
  have "j \<in> set (survivors ?st kids) \<longleftrightarrow> j < length kids \<and> selects ?st (kids ! j)"
    by (rule survivors_bool) simp
  then have one: "1 \<in> set ?S' \<longleftrightarrow> tag c = ''a''"
    using "3.prems"(1) j c by (simp add: next_states_def links_path_def selects_def)
  have child: "walk links_path ?S' c = map Str (links_of c)"
    using "3.hyps"(1) [OF zero] one by (simp add: links_of_unfold [of c])
  have "walk_kids links_path S kids j (c # cs) =
          walk links_path ?S' c @ walk_kids links_path S kids (Suc j) cs"
    by (simp add: links_final links_no_final)
  then show ?case using child "3.hyps"(2) [OF "3.prems"(1) cs] by simp
qed

lemma get_links_links_of: "get_links lx self = Inr (map Str (links_of (tree self)))"
proof -
  have "walk_kids links_path [0] [tree self] 0 [tree self] =
          map Str (concat (map links_of [tree self]))"
    by (rule links_walk(2)) simp_all
  then show ?thesis unfolding get_links_def xpath_links eval_path_def by simp
qed

lemma select_links_map_Str: "select_links cond (map Str ls) = Inr (map Str (filter cond ls))"
  by (induction ls) auto

lemma links_doc_links_of:
  "links_of links_doc = [''https://example.com/a'', ''https://other.com/b'', ''/relative'']"
  by code_simp

lemma links_doc_links:
  "get_links lx \<lparr>tree = links_doc, base_url = b\<rparr> =
     Inr (map Str [''https://example.com/a'', ''https://other.com/b'', ''/relative''])"
  by (simp add: get_links_links_of links_doc_links_of)

subsection \<open>Construction\<close>

text \<open>
  C5. A content type other than \<^verbatim>\<open>xml\<close> and \<^verbatim>\<open>html\<close> makes the constructor fail with the
  invalid-content-type \<^verbatim>\<open>ValueError\<close> whatever the two parsers would do with the content, so
  no parser's outcome is consulted; with \<^verbatim>\<open>xml\<close> the result is that of the XML parser and with
  \<^verbatim>\<open>html\<close> that of the HTML parser.
\<close>

theorem init_content_type:
  "(content_type \<noteq> ''xml'' \<and> content_type \<noteq> ''html'' \<longrightarrow>
      init xml_parser html_parser content content_type url =
        Inl (ValueError ''Invalid content_type. Choose either 'xml' or 'html'.'')) \<and>
   init xml_parser html_parser content ''xml'' url =
     (case xml_parser content of
        Inl err \<Rightarrow> Inl err
      | Inr t \<Rightarrow> Inr \<lparr>tree = t, base_url = url\<rparr>) \<and>
   init xml_parser html_parser content ''html'' url =
     (case html_parser content of
        Inl err \<Rightarrow> Inl err
      | Inr t \<Rightarrow> Inr \<lparr>tree = t, base_url = url\<rparr>)"
  by (simp add: init_def)

theorem init_content_type_witness:
  "''pdf'' \<noteq> ''xml'' \<and> ''pdf'' \<noteq> ''html'' \<and>
   init failing_parser failing_parser ''<a/>'' ''pdf'' None =
     Inl (ValueError ''Invalid content_type. Choose either 'xml' or 'html'.'')"
  using init_content_type [where content_type = "''pdf''" and xml_parser = failing_parser
      and html_parser = failing_parser and content = "''<a/>''" and url = None]
  by simp

subsection \<open>Link classification\<close>

text \<open>
  C1. \<^verbatim>\<open>get_internal_links_only\<close> fails with the base-URL \<^verbatim>\<open>ValueError\<close> when the object was
  built without a base URL. With the base URL \<^verbatim>\<open>https://example.com\<close> over the document whose
  anchor hrefs are \<^verbatim>\<open>https://example.com/a\<close>, \<^verbatim>\<open>https://other.com/b\<close> and \<^verbatim>\<open>/relative\<close> it returns
  exactly the first one; with a non-empty base URL it keeps precisely the links that start with
  that string, in document order.
\<close>

theorem get_internal_links_only_spec:
  "(base_url self = None \<longrightarrow>
      get_internal_links_only lx self =
        Inl (ValueError ''Base URL is not provided. Cannot determine internal links.'')) \<and>
   get_internal_links_only lx \<lparr>tree = links_doc, base_url = Some ''https://example.com''\<rparr> =
     Inr [Str ''https://example.com/a''] \<and>
   (base_url self = Some b \<and> b \<noteq> [] \<longrightarrow>
      get_internal_links_only lx self =
        Inr (map Str (filter (\<lambda>link. prefix b link) (links_of (tree self)))))"
proof (intro conjI impI)
  assume "base_url self = None"
  then show "get_internal_links_only lx self =
      Inl (ValueError ''Base URL is not provided. Cannot determine internal links.'')"
    unfolding get_internal_links_only_def get_links_links_of by simp
next
  show "get_internal_links_only lx \<lparr>tree = links_doc, base_url = Some ''https://example.com''\<rparr> =
     Inr [Str ''https://example.com/a'']"
    unfolding get_internal_links_only_def links_doc_links
    by (simp add: select_links_map_Str startswith_def)
next
  assume "base_url self = Some b \<and> b \<noteq> []"
  then show "get_internal_links_only lx self =
      Inr (map Str (filter (\<lambda>link. prefix b link) (links_of (tree self))))"
    unfolding get_internal_links_only_def get_links_links_of
    by (simp add: select_links_map_Str startswith_def)
qed

theorem get_internal_links_only_spec_witness:
  "base_url \<lparr>tree = links_doc, base_url = None\<rparr> = None \<and>
   get_internal_links_only reject_rest \<lparr>tree = links_doc, base_url = None\<rparr> =
     Inl (ValueError ''Base URL is not provided. Cannot determine internal links.'') \<and>
   base_url \<lparr>tree = links_doc, base_url = Some ''https://other.com''\<rparr> = Some ''https://other.com'' \<and>
   ''https://other.com'' \<noteq> [] \<and>
   get_internal_links_only reject_rest \<lparr>tree = links_doc, base_url = Some ''https://other.com''\<rparr> =
     Inr [Str ''https://other.com/b'']"
proof -
  let ?none = "\<lparr>tree = links_doc, base_url = None\<rparr>"
  let ?some = "\<lparr>tree = links_doc, base_url = Some ''https://other.com''\<rparr>"
  have "get_internal_links_only reject_rest ?none =
      Inl (ValueError ''Base URL is not provided. Cannot determine internal links.'')"
    using get_internal_links_only_spec [where self = ?none and lx = reject_rest] by simp
  moreover have "get_internal_links_only reject_rest ?some = Inr [Str ''https://other.com/b'']"
    using get_internal_links_only_spec
      [where self = ?some and lx = reject_rest and b = "''https://other.com''"]
    by (simp add: links_doc_links_of)
  ultimately show ?thesis by simp
qed

text \<open>
  C2, as stated, fails: with the empty string as base URL \<^verbatim>\<open>not self.base_url\<close> holds, and
  \<^verbatim>\<open>get_internal_links_only\<close> raises the same \<^verbatim>\<open>ValueError\<close> as without a base URL.
\<close>

theorem empty_base_url_counterexample:
  "get_internal_links_only reject_rest \<lparr>tree = links_doc, base_url = Some ''''\<rparr> =
     Inl (ValueError ''Base URL is not provided. Cannot determine internal links.'')"
  unfolding get_internal_links_only_def links_doc_links by simp

text \<open>
  C2, amended. The constructor stores the base URL as given, and \<^verbatim>\<open>get_internal_links_only\<close>
  fails with the base-URL \<^verbatim>\<open>ValueError\<close> exactly when the base URL is absent or the empty
  string: an empty base URL counts as not provided.
\<close>

theorem base_url_verbatim_empty_is_absent:
  "(init xml_parser html_parser content content_type url = Inr obj \<longrightarrow> base_url obj = url) \<and>
   (get_internal_links_only lx self =
      Inl (ValueError ''Base URL is not provided. Cannot determine internal links.'')
    \<longleftrightarrow> base_url self = None \<or> base_url self = Some [])"
proof
  show "init xml_parser html_parser content content_type url = Inr obj \<longrightarrow> base_url obj = url"
    by (auto simp: init_def split: if_splits sum.splits)
next
  show "get_internal_links_only lx self =
      Inl (ValueError ''Base URL is not provided. Cannot determine internal links.'')
    \<longleftrightarrow> base_url self = None \<or> base_url self = Some []"
  proof (cases "base_url self")
    case None
    then show ?thesis unfolding get_internal_links_only_def get_links_links_of by simp
  next
    case (Some b)
    then show ?thesis unfolding get_internal_links_only_def get_links_links_of
      by (simp add: select_links_map_Str)
  qed
qed

theorem base_url_verbatim_empty_is_absent_witness:
  "init failing_parser links_parser ''<html/>'' ''html'' (Some '' https://Example.com/ '') =
     Inr \<lparr>tree = links_doc, base_url = Some '' https://Example.com/ ''\<rparr> \<and>
   base_url \<lparr>tree = links_doc, base_url = Some '' https://Example.com/ ''\<rparr> =
     Some '' https://Example.com/ '' \<and>
   get_internal_links_only reject_rest \<lparr>tree = links_doc, base_url = Some ''''\<rparr> =
     Inl (ValueError ''Base URL is not provided. Cannot determine internal links.'') \<and>
   get_internal_links_only reject_rest \<lparr>tree = links_doc, base_url = Some ''/''\<rparr> \<noteq>
     Inl (ValueError ''Base URL is not provided. Cannot determine internal links.'')"
proof -
  have i: "init failing_parser links_parser ''<html/>'' ''html'' (Some '' https://Example.com/ '') =
     Inr \<lparr>tree = links_doc, base_url = Some '' https://Example.com/ ''\<rparr>"
    by (simp add: init_def links_parser_def)
  show ?thesis
    using i
      base_url_verbatim_empty_is_absent [where xml_parser = failing_parser
        and html_parser = links_parser and content = "''<html/>''" and content_type = "''html''"
        and url = "Some '' https://Example.com/ ''"
        and obj = "\<lparr>tree = links_doc, base_url = Some '' https://Example.com/ ''\<rparr>"
        and lx = reject_rest and self = "\<lparr>tree = links_doc, base_url = Some ''''\<rparr>"]
      base_url_verbatim_empty_is_absent [where lx = reject_rest
        and self = "\<lparr>tree = links_doc, base_url = Some ''/''\<rparr>"]
    by simp
qed

text \<open>
  C4, as stated, fails for a base URL that is provided but empty: every link starts with the
  empty string, and none is excluded.
\<close>

theorem outbound_empty_base_url_counterexample:
  "get_outbound_links_only reject_rest \<lparr>tree = links_doc, base_url = Some ''''\<rparr> =
     Inr [Str ''https://example.com/a'', Str ''https://other.com/b''] \<and>
   prefix '''' ''https://example.com/a''"
  unfolding get_outbound_links_only_def links_doc_links
  by (simp add: select_links_map_Str startswith_def)

text \<open>
  C4, amended. \<^verbatim>\<open>get_outbound_links_only\<close> keeps, from the document's links and in document
  order, the values that start with \<^verbatim>\<open>http://\<close> or \<^verbatim>\<open>https://\<close>, and when a non-empty base URL
  was given it also drops the links that start with that string; the spec's example returns
  exactly \<^verbatim>\<open>https://other.com/b\<close>.
\<close>

theorem get_outbound_links_only_spec:
  "get_outbound_links_only lx \<lparr>tree = links_doc, base_url = Some ''https://example.com''\<rparr> =
     Inr [Str ''https://other.com/b''] \<and>
   get_outbound_links_only lx self =
     Inr (map Str
           (filter (\<lambda>link. (prefix ''http://'' link \<or> prefix ''https://'' link) \<and>
                           (case base_url self of
                              None \<Rightarrow> True
                            | Some b \<Rightarrow> b = [] \<or> \<not> prefix b link))
              (links_of (tree self))))"
proof
  show "get_outbound_links_only lx \<lparr>tree = links_doc, base_url = Some ''https://example.com''\<rparr> =
     Inr [Str ''https://other.com/b'']"
    unfolding get_outbound_links_only_def links_doc_links
    by (simp add: select_links_map_Str startswith_def)
next
  show "get_outbound_links_only lx self =
     Inr (map Str
           (filter (\<lambda>link. (prefix ''http://'' link \<or> prefix ''https://'' link) \<and>
                           (case base_url self of
                              None \<Rightarrow> True
                            | Some b \<Rightarrow> b = [] \<or> \<not> prefix b link))
              (links_of (tree self))))"
  proof (cases "base_url self")
    case None
    then show ?thesis unfolding get_outbound_links_only_def get_links_links_of
      by (simp add: select_links_map_Str startswith_def)
  next
    case (Some b)
    then show ?thesis unfolding get_outbound_links_only_def get_links_links_of
      by (cases "b = []") (simp_all add: select_links_map_Str startswith_def)
  qed
qed

theorem get_outbound_links_only_spec_witness:
  "links_of links_doc = [''https://example.com/a'', ''https://other.com/b'', ''/relative''] \<and>
   get_outbound_links_only reject_rest \<lparr>tree = links_doc, base_url = Some ''https://other.com''\<rparr> =
     Inr [Str ''https://example.com/a'']"
proof -
  let ?self = "\<lparr>tree = links_doc, base_url = Some ''https://other.com''\<rparr>"
  show ?thesis
    using get_outbound_links_only_spec [where lx = reject_rest and self = ?self]
    by (simp add: links_doc_links_of)
qed

subsection \<open>Quoted literals in the templates\<close>

lemma takeWhile_until: "q \<notin> set c \<Longrightarrow> takeWhile (\<lambda>x. x \<noteq> q) (c @ q # r) = c"
  by (induction c) auto

lemma dropWhile_until: "q \<notin> set c \<Longrightarrow> dropWhile (\<lambda>x. x \<noteq> q) (c @ q # r) = q # r"
  by (induction c) auto

lemma unterminated_skip: "q \<notin> set c \<Longrightarrow> unterminated (Some q) (c @ r) = unterminated (Some q) r"
  by (induction c) auto

lemma tokenize_class:
  "sq \<notin> set c \<Longrightarrow>
   tokenize (''//*[@class='' @ [sq] @ c @ [sq] @ '']'') =
     Some [TDSlash, TStar, TLBrack, TAt, TName ''class'', TEq, TLit c, TRBrack]"
  by (simp add: sq_def name_start_def name_char_def is_digit_def dq_def takeWhile_until dropWhile_until)

lemma in_opt_list: "x \<in> set (opt_list v) \<longleftrightarrow> v = Some x"
  by (cases v) auto

lemma parse_class:
  "sq \<notin> set c \<Longrightarrow>
   parse_path (''//*[@class='' @ [sq] @ c @ [sq] @ '']'') =
     Some [Step Descendant AnyName [PEq (OpAttr ''class'') c]]"
  unfolding parse_path_def tokenize_class
  by (simp add: parse_steps.simps parse_preds.simps parse_equals_def)

lemma xpath_class:
  assumes "sq \<notin> set c" and "list_all xml_char c"
  shows "xpath lx t (''//*[@class='' @ [sq] @ c @ [sq] @ '']'') =
     Inr (map Node (filter (\<lambda>e. get e ''class'' = Some c) (iter t)))"
proof -
  let ?e = "''//*[@class='' @ [sq] @ c @ [sq] @ '']''"
  let ?st = "Step Descendant AnyName [PEq (OpAttr ''class'') c]"
  have 1: "list_all xml_char ?e" using assms(2) by (simp add: xml_char_def sq_def)
  have "unterminated None ?e = unterminated (Some sq) (c @ [sq] @ '']'')"
    by (simp add: sq_def dq_def)
  also have "\<dots> = unterminated (Some sq) ([sq] @ '']'')"
    using assms(1) by (rule unterminated_skip)
  also have "\<dots> = False" by (simp add: sq_def dq_def)
  finally have 2: "\<not> unterminated None ?e" by simp
  have sel: "selects ?st = (\<lambda>e. get e ''class'' = Some c)"
    by (rule ext) (simp add: selects_def in_opt_list)
  have "eval_path [?st] t = map Node (filter (selects ?st) (iter t))"
    by (rule eval_descendant_step) simp_all
  then show ?thesis unfolding xpath_def using 1 2 parse_class [OF assms(1)] sel by simp
qed

subsection \<open>Queries\<close>

text \<open>
  C7. For a class name without a single quote, \<^verbatim>\<open>get_nodes_by_class\<close> returns the elements of
  the document, of any tag and in document order, whose \<^verbatim>\<open>class\<close> attribute equals the given
  string as a whole. In the example document the \<^verbatim>\<open>div\<close> with the class attribute \<^verbatim>\<open>x y\<close> is not
  returned for the query \<^verbatim>\<open>x\<close>; only the \<^verbatim>\<open>p\<close> whose attribute is exactly \<^verbatim>\<open>x\<close> is.
\<close>

theorem get_nodes_by_class_exact:
  "(sq \<notin> set classname \<and> list_all xml_char classname \<longrightarrow>
      get_nodes_by_class lx self classname =
        Inr (map Node (filter (\<lambda>e. get e ''class'' = Some classname) (iter (tree self))))) \<and>
   get_nodes_by_class lx \<lparr>tree = class_doc, base_url = url\<rparr> ''x'' =
     Inr [Node (Element ''p'' [(''class'', ''x'')] (Some ''one'') [] None)]"
proof (intro conjI impI)
  assume "sq \<notin> set classname \<and> list_all xml_char classname"
  then have "sq \<notin> set classname" and "list_all xml_char classname" by simp_all
  then show "get_nodes_by_class lx self classname =
        Inr (map Node (filter (\<lambda>e. get e ''class'' = Some classname) (iter (tree self))))"
    unfolding get_nodes_by_class_def by (rule xpath_class)
next
  have q: "sq \<notin> set ''x''" and x: "list_all xml_char ''x''" by (simp_all add: sq_def xml_char_def)
  have "filter (\<lambda>e. get e ''class'' = Some ''x'') (iter class_doc) =
          [Element ''p'' [(''class'', ''x'')] (Some ''one'') [] None]"
    by code_simp
  then show "get_nodes_by_class lx \<lparr>tree = class_doc, base_url = url\<rparr> ''x'' =
     Inr [Node (Element ''p'' [(''class'', ''x'')] (Some ''one'') [] None)]"
    unfolding get_nodes_by_class_def using xpath_class [OF q x, of lx class_doc] by simp
qed

theorem get_nodes_by_class_exact_witness:
  "sq \<notin> set ''x y'' \<and> list_all xml_char ''x y'' \<and>
   get_nodes_by_class reject_rest \<lparr>tree = class_doc, base_url = None\<rparr> ''x y'' =
     Inr [Node (Element ''div'' [(''class'', ''x y''), (''id'', ''x'')] (Some ''both'') [] None)]"
proof -
  have q: "sq \<notin> set ''x y''" and x: "list_all xml_char ''x y''"
    by (simp_all add: sq_def xml_char_def)
  have f: "filter (\<lambda>e. get e ''class'' = Some ''x y'') (iter class_doc) =
          [Element ''div'' [(''class'', ''x y''), (''id'', ''x'')] (Some ''both'') [] None]"
    by code_simp
  show ?thesis
    using q x f
      get_nodes_by_class_exact [where classname = "''x y''" and lx = reject_rest
        and self = "\<lparr>tree = class_doc, base_url = None\<rparr>"]
    by simp
qed

subsection \<open>Links with text\<close>

lemma parse_anchors: "parse_path ''//a'' = Some [Step Descendant (NameTest ''a'') []]"
  by code_simp

lemma xpath_anchors: "xpath lx t ''//a'' = Inr (map Node (anchors t))"
proof -
  let ?st = "Step Descendant (NameTest ''a'') []"
  have 1: "list_all xml_char ''//a''" by code_simp
  have 2: "\<not> unterminated None ''//a''" by code_simp
  have sel: "selects ?st = (\<lambda>e. tag e = ''a'')"
    by (rule ext) (simp add: selects_def)
  have "eval_path [?st] t = map Node (filter (selects ?st) (iter t))"
    by (rule eval_descendant_step) simp_all
  then show ?thesis unfolding xpath_def anchors_def using 1 2 parse_anchors sel by simp
qed

lemma links_dict_fold: "links_dict (map Node as) d = Inr (fold put_anchor as d)"
  by (induction as arbitrary: d) (auto simp: put_anchor_def split: option.splits)

lemma get_links_with_text_fold:
  "get_links_with_text lx self = Inr (fold put_anchor (anchors (tree self)) [])"
  unfolding get_links_with_text_def xpath_anchors by (simp add: links_dict_fold)

lemma put_anchor_keys:
  "fst ` set (put_anchor a d) =
     fst ` set d \<union> (case etext a of None \<Rightarrow> {} | Some t \<Rightarrow> if t = [] then {} else {t})"
  by (auto simp: put_anchor_def dom_update split: option.splits)

lemma fold_put_anchor_keys:
  "fst ` set (fold put_anchor as d) =
     fst ` set d \<union> {t. t \<noteq> [] \<and> (\<exists>a \<in> set as. etext a = Some t)}"
proof (induction as arbitrary: d)
  case Nil
  then show ?case by simp
next
  case (Cons a as)
  show ?case unfolding fold_simps Cons.IH put_anchor_keys
    by (cases "etext a") auto
qed

lemma put_anchor_distinct: "distinct (map fst d) \<Longrightarrow> distinct (map fst (put_anchor a d))"
  by (simp add: put_anchor_def distinct_update split: option.splits)

lemma fold_put_anchor_distinct:
  "distinct (map fst d) \<Longrightarrow> distinct (map fst (fold put_anchor as d))"
  by (induction as arbitrary: d) (simp_all add: put_anchor_distinct)

lemma fold_put_anchor_other:
  "\<forall>z \<in> set zs. etext z \<noteq> Some t \<Longrightarrow> map_of (fold put_anchor zs d) t = map_of d t"
proof (induction zs arbitrary: d)
  case Nil
  then show ?case by simp
next
  case (Cons z zs)
  have "map_of (put_anchor z d) t = map_of d t"
    using Cons.prems by (auto simp: put_anchor_def update_conv' split: option.splits)
  with Cons show ?case by simp
qed

lemma fold_put_anchor_last:
  assumes "etext a = Some t" and "t \<noteq> []" and "\<forall>z \<in> set zs. etext z \<noteq> Some t"
  shows "map_of (fold put_anchor (xs @ [a] @ zs) d) t = Some (get a ''href'')"
proof -
  have "map_of (fold put_anchor (xs @ [a] @ zs) d) t =
          map_of (put_anchor a (fold put_anchor xs d)) t"
    using assms(3) by (simp add: fold_put_anchor_other)
  also have "\<dots> = Some (get a ''href'')"
    using assms(1,2) by (simp add: put_anchor_def update_conv')
  finally show ?thesis .
qed

lemma one_entry:
  "distinct (map fst d) \<Longrightarrow> map_of d t = Some v \<Longrightarrow> filter (\<lambda>kv. fst kv = t) d = [(t, v)]"
proof (induction d)
  case Nil
  then show ?case by simp
next
  case (Cons p d)
  show ?case
  proof (cases "fst p = t")
    case True
    then have "p = (t, v)" using Cons.prems(2) by (cases p) simp
    moreover have "t \<notin> fst ` set d" using True Cons.prems(1) by auto
    then have "\<forall>kv \<in> set d. fst kv \<noteq> t" by (metis imageI)
    then have "filter (\<lambda>kv. fst kv = t) d = []" by (simp add: filter_empty_conv)
    ultimately show ?thesis by simp
  next
    case False
    then show ?thesis using Cons by (cases p) auto
  qed
qed

text \<open>
  C3, as stated, fails: \<^verbatim>\<open>if anchor.text\<close> drops only absent and empty text, so an anchor whose
  text is a single space is kept, under a key that is empty once stripped.
\<close>

theorem whitespace_key_counterexample:
  "get_links_with_text reject_rest \<lparr>tree = blank_anchor_doc, base_url = None\<rparr> =
     Inr [('' '', Some ''/x'')] \<and>
   strip '' '' = []"
proof
  have "fold put_anchor (anchors blank_anchor_doc) [] = [('' '', Some ''/x'')]" by code_simp
  then show "get_links_with_text reject_rest \<lparr>tree = blank_anchor_doc, base_url = None\<rparr> =
     Inr [('' '', Some ''/x'')]"
    by (simp add: get_links_with_text_fold)
next
  show "strip '' '' = []" by code_simp
qed

text \<open>
  C3, amended. For every document \<^verbatim>\<open>get_links_with_text\<close> returns a mapping without the empty
  key and with one entry per key (a key that is only whitespace can occur). When two anchors
  of the document share the same non-empty direct text, the mapping has exactly one entry for
  that text, and it holds the href of the last anchor with that text.
\<close>

theorem links_with_text_keys:
  "\<exists>d. get_links_with_text lx self = Inr d \<and> [] \<notin> fst ` set d \<and> distinct (map fst d) \<and>
     (anchors (tree self) = xs @ [a1] @ ys @ [a2] @ zs \<and> etext a1 = Some t \<and> etext a2 = Some t \<and>
      t \<noteq> [] \<and> (\<forall>z \<in> set zs. etext z \<noteq> Some t)
      \<longrightarrow> filter (\<lambda>kv. fst kv = t) d = [(t, get a2 ''href'')])"
proof (intro exI conjI impI)
  let ?d = "fold put_anchor (anchors (tree self)) []"
  show "get_links_with_text lx self = Inr ?d" by (rule get_links_with_text_fold)
  show "[] \<notin> fst ` set ?d" unfolding fold_put_anchor_keys by simp
  show dist: "distinct (map fst ?d)" by (rule fold_put_anchor_distinct) simp
  assume a: "anchors (tree self) = xs @ [a1] @ ys @ [a2] @ zs \<and> etext a1 = Some t \<and>
      etext a2 = Some t \<and> t \<noteq> [] \<and> (\<forall>z \<in> set zs. etext z \<noteq> Some t)"
  then have "anchors (tree self) = (xs @ [a1] @ ys) @ [a2] @ zs" by simp
  then have "map_of ?d t = Some (get a2 ''href'')"
    using a fold_put_anchor_last [of a2 t zs "xs @ [a1] @ ys" "[]"] by simp
  with dist show "filter (\<lambda>kv. fst kv = t) ?d = [(t, get a2 ''href'')]" by (rule one_entry)
qed

theorem links_with_text_keys_witness:
  "anchors same_text_doc = [] @ [home_1] @ [] @ [home_2] @ [] \<and>
   etext home_1 = Some ''Home'' \<and> etext home_2 = Some ''Home'' \<and> ''Home'' \<noteq> [] \<and>
   (\<exists>d. get_links_with_text reject_rest \<lparr>tree = same_text_doc, base_url = None\<rparr> = Inr d \<and>
        [] \<notin> fst ` set d \<and>
        filter (\<lambda>kv. fst kv = ''Home'') d = [(''Home'', Some ''/2'')])"
proof -
  have an: "anchors same_text_doc = [] @ [home_1] @ [] @ [home_2] @ []" by code_simp
  have t: "etext home_1 = Some ''Home''" "etext home_2 = Some ''Home''"
    and h: "get home_2 ''href'' = Some ''/2''"
    by (simp_all add: home_1_def home_2_def get_def)
  show ?thesis
    using an t h
      links_with_text_keys [where lx = reject_rest
        and self = "\<lparr>tree = same_text_doc, base_url = None\<rparr>" and xs = "[]" and ys = "[]"
        and zs = "[]" and ?a1.0 = home_1 and ?a2.0 = home_2 and t = "''Home''"]
    by auto
qed

text \<open>
  C10. Every key of the mapping is the direct text (\<^verbatim>\<open>Element.text\<close>) of some anchor, so text
  that lies only inside descendants of an anchor gives no entry; an anchor with non-empty
  direct text and no \<^verbatim>\<open>href\<close> attribute is included, with \<^verbatim>\<open>None\<close> as its value. In the example
  the anchor around \<^verbatim>\<open><b>bold</b></a>\<close> is skipped and the anchor \<^verbatim>\<open>plain\<close> without href is kept.
\<close>

theorem links_with_text_direct_text:
  "\<exists>d. get_links_with_text lx self = Inr d \<and>
     (\<forall>k \<in> fst ` set d. \<exists>a \<in> set (anchors (tree self)). etext a = Some k) \<and>
     (anchors (tree self) = xs @ [a] @ zs \<and> etext a = Some t \<and> t \<noteq> [] \<and>
      get a ''href'' = None \<and> (\<forall>z \<in> set zs. etext z \<noteq> Some t)
      \<longrightarrow> map_of d t = Some None) \<and>
     (tree self = nested_text_doc \<longrightarrow> d = [(''plain'', None)])"
proof (intro exI conjI impI)
  let ?d = "fold put_anchor (anchors (tree self)) []"
  show "get_links_with_text lx self = Inr ?d" by (rule get_links_with_text_fold)
  show "\<forall>k \<in> fst ` set ?d. \<exists>a \<in> set (anchors (tree self)). etext a = Some k"
    unfolding fold_put_anchor_keys by auto
next
  assume a: "anchors (tree self) = xs @ [a] @ zs \<and> etext a = Some t \<and> t \<noteq> [] \<and>
      get a ''href'' = None \<and> (\<forall>z \<in> set zs. etext z \<noteq> Some t)"
  then show "map_of (fold put_anchor (anchors (tree self)) []) t = Some None"
    using fold_put_anchor_last [of a t zs xs "[]"] by simp
next
  assume "tree self = nested_text_doc"
  moreover have "fold put_anchor (anchors nested_text_doc) [] = [(''plain'', None)]" by code_simp
  ultimately show "fold put_anchor (anchors (tree self)) [] = [(''plain'', None)]" by simp
qed

theorem links_with_text_direct_text_witness:
  "anchors nested_text_doc = [bold_anchor] @ [plain_anchor] @ [] \<and>
   etext bold_anchor = None \<and> get bold_anchor ''href'' = Some ''/x'' \<and>
   etext plain_anchor = Some ''plain'' \<and> get plain_anchor ''href'' = None \<and>
   (\<exists>d. get_links_with_text reject_rest \<lparr>tree = nested_text_doc, base_url = None\<rparr> = Inr d \<and>
        map_of d ''plain'' = Some None \<and> d = [(''plain'', None)])"
proof -
  have an: "anchors nested_text_doc = [bold_anchor] @ [plain_anchor] @ []" by code_simp
  have f: "etext bold_anchor = None" "get bold_anchor ''href'' = Some ''/x''"
    "etext plain_anchor = Some ''plain''" "get plain_anchor ''href'' = None"
    by (simp_all add: bold_anchor_def plain_anchor_def get_def)
  show ?thesis
    using an f
      links_with_text_direct_text [where lx = reject_rest
        and self = "\<lparr>tree = nested_text_doc, base_url = None\<rparr>" and xs = "[bold_anchor]"
        and zs = "[]" and a = plain_anchor and t = "''plain''"]
    by auto
qed

subsection \<open>Article text\<close>

lemma parse_article: "parse_path ''//article//text()'' = Some article_path"
  unfolding article_path_def by code_simp

lemma article_final: "final_test article_path S = (if 1 \<in> set S then Some TextTest else None)"
  by (simp add: final_test_def article_path_def)

lemma article_no_final: "length article_path \<notin> set (next_states article_path S kids j)"
  by (rule no_final_state) (simp_all add: article_path_def)

lemma inside_article:
  "1 \<in> set S \<Longrightarrow> walk article_path S e = map Str (texts_of e)"
  "1 \<in> set S \<Longrightarrow>
     walk_kids article_path S kids j cs =
       map Str (concat (map (\<lambda>c. texts_of c @ opt_list (etail c)) cs))"
proof (induction article_path S e and article_path S kids j cs rule: walk_walk_kids.induct)
  case (1 S tg at tx kids tail)
  then show ?case by (simp add: article_final)
next
  case (2 S kids j)
  then show ?case by simp
next
  case (3 S kids j c cs)
  have "1 \<in> set (next_states article_path S kids j)"
    using "3.prems" by (simp add: next_states_def article_path_def)
  with 3 show ?case by (simp add: article_final article_no_final)
qed

lemma article_texts_unfold:
  "article_texts c =
     (if tag c = ''article'' then texts_of c else concat (map article_texts (children c)))"
  by (cases c) simp

lemma outside_article:
  "0 \<in> set S \<Longrightarrow> 1 \<notin> set S \<Longrightarrow>
     walk article_path S e = map Str (concat (map article_texts (children e)))"
  "0 \<in> set S \<Longrightarrow> 1 \<notin> set S \<Longrightarrow> cs = drop j kids \<Longrightarrow>
     walk_kids article_path S kids j cs = map Str (concat (map article_texts cs))"
proof (induction article_path S e and article_path S kids j cs rule: walk_walk_kids.induct)
  case (1 S tg at tx kids tail)
  then show ?case by (simp add: article_final)
next
  case (2 S kids j)
  then show ?case by simp
next
  case (3 S kids j c cs)
  let ?S' = "next_states article_path S kids j"
  let ?st = "Step Descendant (NameTest ''article'') []"
  note j = drop_eq_ConsD(1) [OF "3.prems"(3)] and c = drop_eq_ConsD(2) [OF "3.prems"(3)]
    and cs = drop_eq_ConsD(3) [OF "3.prems"(3)]
  have zero: "0 \<in> set ?S'" using "3.prems"(1) by (simp add: next_states_def article_path_def)
  have "j \<in> set (survivors ?st kids) \<longleftrightarrow> j < length kids \<and> selects ?st (kids ! j)"
    by (rule survivors_bool) simp
  then have one: "1 \<in> set ?S' \<longleftrightarrow> tag c = ''article''"
    using "3.prems"(1,2) j c by (simp add: next_states_def article_path_def selects_def)
  have child: "walk article_path ?S' c = map Str (article_texts c)"
  proof (cases "tag c = ''article''")
    case True
    then show ?thesis using one inside_article(1) [of ?S' c] by (simp add: article_texts_unfold [of c])
  next
    case False
    then show ?thesis using one zero "3.hyps"(1) by (simp add: article_texts_unfold [of c])
  qed
  have "walk_kids article_path S kids j (c # cs) =
          walk article_path ?S' c @ walk_kids article_path S kids (Suc j) cs"
    using "3.prems"(2) by (simp add: article_final article_no_final)
  then show ?case using child "3.hyps"(2) [OF "3.prems"(1,2) cs] by simp
qed

lemma xpath_article: "xpath lx t ''//article//text()'' = Inr (map Str (article_texts t))"
proof -
  have 1: "list_all xml_char ''//article//text()''" by code_simp
  have 2: "\<not> unterminated None ''//article//text()''" by code_simp
  have "walk_kids article_path [0] [t] 0 [t] = map Str (concat (map article_texts [t]))"
    by (rule outside_article(2)) simp_all
  then have "eval_path article_path t = map Str (article_texts t)" by (simp add: eval_path_def)
  then show ?thesis unfolding xpath_def using 1 2 by (simp add: parse_article)
qed

lemma strip_texts_map:
  "strip_texts (map Str ts) = Inr (filter (\<lambda>s. s \<noteq> []) (map strip ts))"
  by (induction ts) auto

lemma last_dropWhile: "dropWhile P xs \<noteq> [] \<Longrightarrow> last (dropWhile P xs) = last xs"
  by (induction xs) (auto split: if_splits)

lemma strip_ends:
  assumes "strip s \<noteq> []"
  shows "\<not> isspace (hd (strip s))" and "\<not> isspace (last (strip s))"
proof -
  let ?u = "dropWhile isspace s"
  let ?v = "dropWhile isspace (rev ?u)"
  have v: "?v \<noteq> []" and s: "strip s = rev ?v" using assms by (simp_all add: strip_def)
  have u: "?u \<noteq> []"
  proof
    assume "?u = []"
    then have "?v = []" by (simp only: rev.simps dropWhile.simps)
    with v show False by simp
  qed
  have "hd (strip s) = last ?v" using v s by (simp add: hd_rev)
  also have "\<dots> = last (rev ?u)" using v by (rule last_dropWhile)
  also have "\<dots> = hd ?u" using u by (simp add: last_rev)
  finally show "\<not> isspace (hd (strip s))" using hd_dropWhile [OF u] by simp
  have "last (strip s) = hd ?v" using v s by (simp add: last_rev)
  then show "\<not> isspace (last (strip s))" using hd_dropWhile [OF v] by simp
qed

lemma strip_not_blank: "strip s \<noteq> [] \<Longrightarrow> \<not> list_all isspace (strip s)"
proof -
  assume a: "strip s \<noteq> []"
  then have "hd (strip s) \<in> set (strip s)" by simp
  then show ?thesis using strip_ends(1) [OF a] by (auto simp: list_all_iff)
qed

lemma trimmed_iff:
  "trimmed t u \<longleftrightarrow>
     (\<exists>l r. t = l @ u @ r \<and> list_all isspace l \<and> list_all isspace r \<and>
            (u = [] \<or> (\<not> isspace (hd u) \<and> \<not> isspace (last u))))"
proof
  assume "trimmed t u"
  then show "\<exists>l r. t = l @ u @ r \<and> list_all isspace l \<and> list_all isspace r \<and>
            (u = [] \<or> (\<not> isspace (hd u) \<and> \<not> isspace (last u)))"
    unfolding trimmed_def by blast
next
  assume "\<exists>l r. t = l @ u @ r \<and> list_all isspace l \<and> list_all isspace r \<and>
            (u = [] \<or> (\<not> isspace (hd u) \<and> \<not> isspace (last u)))"
  then obtain l r where t: "t = l @ u @ r" and l: "list_all isspace l" and r: "list_all isspace r"
    and u: "u = [] \<or> (\<not> isspace (hd u) \<and> \<not> isspace (last u))"
    by blast
  have "l \<in> set (prefixes t)" using t by (simp add: in_set_prefixes)
  moreover have "r \<in> set (suffixes t)" using t by (simp add: in_set_suffixes suffix_def)
  ultimately show "trimmed t u" unfolding trimmed_def using t l r u by blast
qed

lemma strip_split:
  "\<exists>l r. t = l @ strip t @ r \<and> list_all isspace l \<and> list_all isspace r"
proof -
  let ?u = "dropWhile isspace t"
  have 1: "t = takeWhile isspace t @ ?u" by simp
  have "rev (rev ?u) = rev (takeWhile isspace (rev ?u) @ dropWhile isspace (rev ?u))"
    by (simp only: takeWhile_dropWhile_id)
  then have "?u = rev (dropWhile isspace (rev ?u)) @ rev (takeWhile isspace (rev ?u))"
    by (simp only: rev_rev_ident rev_append)
  then have 2: "?u = strip t @ rev (takeWhile isspace (rev ?u))"
    by (simp only: strip_def)
  have 3: "list_all isspace (takeWhile isspace t)"
    and 4: "list_all isspace (rev (takeWhile isspace (rev ?u)))"
    by (auto simp: list_all_iff dest: set_takeWhileD)
  have "t = takeWhile isspace t @ strip t @ rev (takeWhile isspace (rev ?u))"
    using 1 2 by metis
  with 3 4 show ?thesis by blast
qed

lemma trimmed_strip: "trimmed t (strip t)"
proof -
  obtain l r where "t = l @ strip t @ r" "list_all isspace l" "list_all isspace r"
    using strip_split by blast
  moreover have "strip t = [] \<or> (\<not> isspace (hd (strip t)) \<and> \<not> isspace (last (strip t)))"
    using strip_ends by blast
  ultimately show ?thesis unfolding trimmed_iff by blast
qed

lemma dropWhile_all: "list_all P l \<Longrightarrow> dropWhile P (l @ ys) = dropWhile P ys"
  by (induction l) auto

lemma trimmed_is_strip:
  assumes "trimmed t u"
  shows "u = strip t"
proof -
  obtain l r where t: "t = l @ u @ r" and l: "list_all isspace l" and r: "list_all isspace r"
    and u: "u = [] \<or> (\<not> isspace (hd u) \<and> \<not> isspace (last u))"
    using assms unfolding trimmed_iff by blast
  show ?thesis
  proof (cases "u = []")
    case True
    have "dropWhile isspace t = dropWhile isspace r" using t l True by (simp add: dropWhile_all)
    also have "\<dots> = []" using r by (simp add: list_all_iff)
    finally have d: "dropWhile isspace t = []" .
    have "strip t = []" unfolding strip_def d by simp
    then show ?thesis using True by simp
  next
    case False
    then have h: "\<not> isspace (hd u)" and e: "\<not> isspace (last u)" using u by simp_all
    have "dropWhile isspace t = dropWhile isspace (u @ r)" using t l by (simp add: dropWhile_all)
    also have "\<dots> = u @ r" using False h by (cases u) simp_all
    finally have 1: "dropWhile isspace t = u @ r" .
    have "dropWhile isspace (rev (u @ r)) = dropWhile isspace (rev r @ rev u)" by simp
    also have "\<dots> = dropWhile isspace (rev u)"
      using r by (intro dropWhile_all) (simp add: list_all_iff)
    also have "\<dots> = rev u" using False e by (cases "rev u") (auto simp: last_rev [symmetric] hd_rev)
    finally show ?thesis using 1 by (simp add: strip_def)
  qed
qed

lemma list_all2_trimmed: "list_all2 trimmed ts us \<longleftrightarrow> us = map strip ts"
proof
  assume "list_all2 trimmed ts us"
  then show "us = map strip ts"
    by (induction rule: list_all2_induct) (simp_all add: trimmed_is_strip)
next
  assume "us = map strip ts"
  then show "list_all2 trimmed ts us"
    by (simp add: list_all2_conv_all_nth trimmed_strip)
qed

text \<open>
  C6. For every document \<^verbatim>\<open>get_article_text\<close> returns the text nodes under any \<^verbatim>\<open>article\<close>
  element, in document order, each without its surrounding whitespace, and without those
  that are empty once stripped; no entry of the result is empty or made of whitespace only.
  What a text node is without its surrounding whitespace is determined by the node.
\<close>

theorem get_article_text_stripped:
  "(\<exists>us. list_all2 trimmed (article_texts (tree self)) us \<and>
         get_article_text lx self = Inr (filter (\<lambda>u. u \<noteq> []) us) \<and>
         (\<forall>s \<in> set (filter (\<lambda>u. u \<noteq> []) us). s \<noteq> [] \<and> \<not> list_all isspace s)) \<and>
   (trimmed t u \<and> trimmed t u' \<longrightarrow> u = u')"
proof
  let ?us = "map strip (article_texts (tree self))"
  have 1: "list_all2 trimmed (article_texts (tree self)) ?us" by (simp add: list_all2_trimmed)
  have 2: "get_article_text lx self = Inr (filter (\<lambda>u. u \<noteq> []) ?us)"
    unfolding get_article_text_def xpath_article by (simp add: strip_texts_map)
  have 3: "\<forall>s \<in> set (filter (\<lambda>u. u \<noteq> []) ?us). s \<noteq> [] \<and> \<not> list_all isspace s"
    using strip_not_blank by auto
  from 1 2 3 show "\<exists>us. list_all2 trimmed (article_texts (tree self)) us \<and>
         get_article_text lx self = Inr (filter (\<lambda>u. u \<noteq> []) us) \<and>
         (\<forall>s \<in> set (filter (\<lambda>u. u \<noteq> []) us). s \<noteq> [] \<and> \<not> list_all isspace s)"
    by blast
next
  show "trimmed t u \<and> trimmed t u' \<longrightarrow> u = u'"
    using trimmed_is_strip by blast
qed

theorem get_article_text_stripped_witness:
  "article_texts article_doc = [''  Title '', '' para '', '' tail '', ''inner'', ''   ''] \<and>
   trimmed ''  Title '' ''Title'' \<and> trimmed '' para '' ''para'' \<and> trimmed '' tail '' ''tail'' \<and>
   trimmed ''inner'' ''inner'' \<and> trimmed ''   '' [] \<and>
   get_article_text reject_rest \<lparr>tree = article_doc, base_url = None\<rparr> =
     Inr [''Title'', ''para'', ''tail'', ''inner''] \<and>
   \<not> list_all isspace ''para''"
proof -
  have a: "article_texts article_doc = [''  Title '', '' para '', '' tail '', ''inner'', ''   '']"
    by (simp add: article_doc_def)
  have s: "strip ''  Title '' = ''Title''" "strip '' para '' = ''para''" "strip '' tail '' = ''tail''"
    "strip ''inner'' = ''inner''" "strip ''   '' = []"
    by code_simp+
  have tr: "trimmed ''  Title '' ''Title''" "trimmed '' para '' ''para''"
    "trimmed '' tail '' ''tail''" "trimmed ''inner'' ''inner''" "trimmed ''   '' []"
    using trimmed_strip [of "''  Title ''"] trimmed_strip [of "'' para ''"]
      trimmed_strip [of "'' tail ''"] trimmed_strip [of "''inner''"] trimmed_strip [of "''   ''"]
    unfolding s by blast+
  have t: "tree \<lparr>tree = article_doc, base_url = None\<rparr> = article_doc" by simp
  note th = get_article_text_stripped [where lx = reject_rest
        and self = "\<lparr>tree = article_doc, base_url = None\<rparr>" and t = "'' para ''"
        and u = "''para''" and u' = "strip '' para ''", unfolded t a]
  from th obtain us where
    l: "list_all2 trimmed [''  Title '', '' para '', '' tail '', ''inner'', ''   ''] us"
    and g: "get_article_text reject_rest \<lparr>tree = article_doc, base_url = None\<rparr> =
        Inr (filter (\<lambda>u. u \<noteq> []) us)"
    and n: "\<forall>s \<in> set (filter (\<lambda>u. u \<noteq> []) us). s \<noteq> [] \<and> \<not> list_all isspace s"
    by blast
  have us: "us = [''Title'', ''para'', ''tail'', ''inner'', []]"
    using l unfolding list_all2_trimmed by (simp add: s)
  have r: "get_article_text reject_rest \<lparr>tree = article_doc, base_url = None\<rparr> =
      Inr [''Title'', ''para'', ''tail'', ''inner'']"
    using g unfolding us by simp
  have "''para'' \<in> set (filter (\<lambda>u. u \<noteq> []) us)" unfolding us by simp
  with n have "\<not> list_all isspace ''para''" by blast
  with a tr r show ?thesis by blast
qed

subsection \<open>Quotes in the arguments\<close>

lemma unterminated_parity:
  "dq \<notin> set e \<Longrightarrow>
     (unterminated None e \<longleftrightarrow> odd (count_list e sq)) \<and>
     (unterminated (Some sq) e \<longleftrightarrow> even (count_list e sq))"
  by (induction e) auto

lemma xpath_odd_quotes:
  assumes "list_all xml_char e" and "dq \<notin> set e" and "odd (count_list e sq)"
  shows "xpath lx t e = Inl XPathEvalError"
  using assms unterminated_parity [of e] by (simp add: xpath_def)

text \<open>
  C8, as stated, fails: a tag or attribute argument with single quotes that balance can give a
  well-formed expression. The tag argument \<^verbatim>\<open>*[@id='x']\<close> and the attribute argument
  \<^verbatim>\<open>id='x'][@class\<close> both contain single quotes, and the queries return a node instead of
  raising.
\<close>

theorem quoted_argument_counterexample:
  "sq \<in> set ''*[@id='x']'' \<and>
   get_nodes_by_attribute reject_rest \<lparr>tree = class_doc, base_url = None\<rparr>
       ''*[@id='x']'' ''class'' ''x y'' =
     Inr [Node (Element ''div'' [(''class'', ''x y''), (''id'', ''x'')] (Some ''both'') [] None)] \<and>
   get_nodes_by_text reject_rest \<lparr>tree = class_doc, base_url = None\<rparr> ''*[@id='x']'' ''both'' =
     Inr [Node (Element ''div'' [(''class'', ''x y''), (''id'', ''x'')] (Some ''both'') [] None)] \<and>
   sq \<in> set ''id='x'][@class'' \<and>
   get_nodes_by_attribute reject_rest \<lparr>tree = class_doc, base_url = None\<rparr>
       ''div'' ''id='x'][@class'' ''x y'' =
     Inr [Node (Element ''div'' [(''class'', ''x y''), (''id'', ''x'')] (Some ''both'') [] None)]"
  by code_simp

lemma digit_char_digit: "d < 10 \<Longrightarrow> is_digit (digit_char d)"
  by (simp add: is_digit_def digit_char_def)

lemma str_nat_digits: "list_all is_digit (str_nat n)"
proof (induction n rule: str_nat.induct)
  case (1 n)
  show ?case
  proof (cases "n < 10")
    case True
    then show ?thesis by (subst str_nat.simps) (simp add: digit_char_digit)
  next
    case False
    then show ?thesis using 1
      by (subst str_nat.simps) (simp add: digit_char_digit)
  qed
qed

lemma digit_plain: "is_digit c \<Longrightarrow> xml_char c \<and> c \<noteq> sq \<and> c \<noteq> dq"
  by (auto simp: is_digit_def xml_char_def sq_def dq_def Let_def)

lemma str_int_plain:
  "list_all xml_char (str_int n)" "dq \<notin> set (str_int n)" "count_list (str_int n) sq = 0"
proof -
  have d: "\<forall>c \<in> set (str_nat k). xml_char c \<and> c \<noteq> sq \<and> c \<noteq> dq" for k
    using str_nat_digits [of k] digit_plain by (auto simp: list_all_iff)
  have m: "xml_char CHR ''-''" "CHR ''-'' \<noteq> sq" "CHR ''-'' \<noteq> dq"
    by (simp_all add: xml_char_def sq_def dq_def)
  have all: "\<forall>c \<in> set (str_int n). xml_char c \<and> c \<noteq> sq \<and> c \<noteq> dq"
    using d m by (auto simp: str_int_def)
  show "list_all xml_char (str_int n)" using all by (simp add: list_all_iff)
  show "dq \<notin> set (str_int n)" using all by blast
  have "sq \<notin> set (str_int n)" using all by blast
  then show "count_list (str_int n) sq = 0" by (simp add: count_list_0_iff)
qed

lemma by_tag_odd:
  "odd_quotes tagname \<Longrightarrow> get_nodes_by_tag lx self tagname = Inl XPathEvalError"
  unfolding get_nodes_by_tag_def odd_quotes_def
  by (intro xpath_odd_quotes) (simp_all add: xml_char_def sq_def dq_def)

lemma by_attribute_odd:
  "odd_quotes (tagname @ attribute @ val) \<Longrightarrow>
     get_nodes_by_attribute lx self tagname attribute val = Inl XPathEvalError"
  unfolding get_nodes_by_attribute_def odd_quotes_def
  by (intro xpath_odd_quotes) (simp_all add: xml_char_def sq_def dq_def)

lemma by_text_odd:
  "odd_quotes (tagname @ wanted) \<Longrightarrow> get_nodes_by_text lx self tagname wanted = Inl XPathEvalError"
  unfolding get_nodes_by_text_def odd_quotes_def
  by (intro xpath_odd_quotes) (simp_all add: xml_char_def sq_def dq_def)

lemma nth_child_odd:
  "odd_quotes (parent @ child) \<Longrightarrow> get_nth_child lx self parent child n = Inl XPathEvalError"
  unfolding get_nth_child_def odd_quotes_def
  by (intro xpath_odd_quotes)
     (simp_all add: str_int_plain [unfolded sq_def dq_def] xml_char_def sq_def dq_def
          )

lemma containing_text_odd:
  "odd_quotes (tagname @ wanted) \<Longrightarrow>
     get_nodes_containing_text lx self tagname wanted = Inl XPathEvalError"
  unfolding get_nodes_containing_text_def odd_quotes_def
  by (intro xpath_odd_quotes) (simp_all add: xml_char_def sq_def dq_def)

lemma attribute_containing_text_odd:
  "odd_quotes (tagname @ attribute @ wanted) \<Longrightarrow>
     get_nodes_by_attribute_containing_text lx self tagname attribute wanted = Inl XPathEvalError"
  unfolding get_nodes_by_attribute_containing_text_def odd_quotes_def
  by (intro xpath_odd_quotes) (simp_all add: xml_char_def sq_def dq_def)

lemma by_class_odd:
  "odd_quotes classname \<Longrightarrow> get_nodes_by_class lx self classname = Inl XPathEvalError"
  unfolding get_nodes_by_class_def odd_quotes_def
  by (intro xpath_odd_quotes) (simp_all add: xml_char_def sq_def dq_def)

lemma by_id_odd:
  "odd_quotes element_id \<Longrightarrow> get_nodes_by_id lx self element_id = Inl XPathEvalError"
  unfolding get_nodes_by_id_def odd_quotes_def
  by (intro xpath_odd_quotes) (simp_all add: xml_char_def sq_def dq_def)

lemma by_data_attribute_odd:
  "odd_quotes (data_name @ data_val) \<Longrightarrow>
     get_nodes_by_data_attribute lx self data_name data_val = Inl XPathEvalError"
  unfolding get_nodes_by_data_attribute_def odd_quotes_def
  by (intro xpath_odd_quotes) (simp_all add: xml_char_def sq_def dq_def)

lemma by_name_odd:
  "odd_quotes name_val \<Longrightarrow> get_nodes_by_name lx self name_val = Inl XPathEvalError"
  unfolding get_nodes_by_name_def odd_quotes_def
  by (intro xpath_odd_quotes) (simp_all add: xml_char_def sq_def dq_def)


lemma balanced_quotes_example:
  "get_nodes_by_attribute lx \<lparr>tree = class_doc, base_url = url\<rparr> ''*[@id='x']'' ''class'' ''x y'' =
     Inr [Node (Element ''div'' [(''class'', ''x y''), (''id'', ''x'')] (Some ''both'') [] None)]"
proof -
  let ?e = "''//*[@id='x'][@class='x y']''"
  let ?p = "[Step Descendant AnyName [PEq (OpAttr ''id'') ''x'', PEq (OpAttr ''class'') ''x y'']]"
  have e: "''//'' @ ''*[@id='x']'' @ ''[@'' @ ''class'' @ ''='' @ [sq] @ ''x y'' @ [sq] @ '']'' = ?e"
    by (simp add: sq_def)
  have p: "parse_path ?e = Some ?p" by code_simp
  have c: "list_all xml_char ?e" by code_simp
  have u: "\<not> unterminated None ?e" by code_simp
  have v: "eval_path ?p class_doc =
     [Node (Element ''div'' [(''class'', ''x y''), (''id'', ''x'')] (Some ''both'') [] None)]"
    by code_simp
  show ?thesis unfolding get_nodes_by_attribute_def e xpath_def using p c u v by simp
qed

text \<open>
  C8, amended. Each of the ten queries evaluates its template with the arguments put in as
  they are, nothing escaped. When the string arguments of a query contain no double quote and
  an odd number of single quotes in all, a string literal of the expression is left
  unterminated and the query fails with the evaluator's error. Quotes that balance can leave
  a well-formed expression: the tag argument \<^verbatim>\<open>*[@id='x']\<close> gives a query that returns a node.
\<close>

theorem quotes_not_escaped:
  "get_nodes_by_tag lx self tagname = xpath lx (tree self) (''//'' @ tagname) \<and>
   get_nodes_by_attribute lx self tagname attribute val =
     xpath lx (tree self) (''//'' @ tagname @ ''[@'' @ attribute @ ''='' @ [sq] @ val @ [sq] @ '']'') \<and>
   get_nodes_by_text lx self tagname wanted =
     xpath lx (tree self) (''//'' @ tagname @ ''[text()='' @ [sq] @ wanted @ [sq] @ '']'') \<and>
   get_nth_child lx self parent child n =
     xpath lx (tree self) (''//'' @ parent @ ''/'' @ child @ ''['' @ str_int n @ '']'') \<and>
   get_nodes_containing_text lx self tagname wanted =
     xpath lx (tree self) (''//'' @ tagname @ ''[contains(text(), '' @ [sq] @ wanted @ [sq] @ '')]'') \<and>
   get_nodes_by_attribute_containing_text lx self tagname attribute wanted =
     xpath lx (tree self)
       (''//'' @ tagname @ ''[contains(@'' @ attribute @ '', '' @ [sq] @ wanted @ [sq] @ '')]'') \<and>
   get_nodes_by_class lx self classname =
     xpath lx (tree self) (''//*[@class='' @ [sq] @ classname @ [sq] @ '']'') \<and>
   get_nodes_by_id lx self element_id =
     xpath lx (tree self) (''//*[@id='' @ [sq] @ element_id @ [sq] @ '']'') \<and>
   get_nodes_by_data_attribute lx self data_name data_val =
     xpath lx (tree self) (''//*[@data-'' @ data_name @ ''='' @ [sq] @ data_val @ [sq] @ '']'') \<and>
   get_nodes_by_name lx self name_val =
     xpath lx (tree self) (''//*[@name='' @ [sq] @ name_val @ [sq] @ '']'') \<and>
   (odd_quotes tagname \<longrightarrow> get_nodes_by_tag lx self tagname = Inl XPathEvalError) \<and>
   (odd_quotes (tagname @ attribute @ val) \<longrightarrow>
      get_nodes_by_attribute lx self tagname attribute val = Inl XPathEvalError) \<and>
   (odd_quotes (tagname @ wanted) \<longrightarrow>
      get_nodes_by_text lx self tagname wanted = Inl XPathEvalError) \<and>
   (odd_quotes (parent @ child) \<longrightarrow>
      get_nth_child lx self parent child n = Inl XPathEvalError) \<and>
   (odd_quotes (tagname @ wanted) \<longrightarrow>
      get_nodes_containing_text lx self tagname wanted = Inl XPathEvalError) \<and>
   (odd_quotes (tagname @ attribute @ wanted) \<longrightarrow>
      get_nodes_by_attribute_containing_text lx self tagname attribute wanted =
        Inl XPathEvalError) \<and>
   (odd_quotes classname \<longrightarrow> get_nodes_by_class lx self classname = Inl XPathEvalError) \<and>
   (odd_quotes element_id \<longrightarrow> get_nodes_by_id lx self element_id = Inl XPathEvalError) \<and>
   (odd_quotes (data_name @ data_val) \<longrightarrow>
      get_nodes_by_data_attribute lx self data_name data_val = Inl XPathEvalError) \<and>
   (odd_quotes name_val \<longrightarrow> get_nodes_by_name lx self name_val = Inl XPathEvalError) \<and>
   get_nodes_by_attribute lx \<lparr>tree = class_doc, base_url = url\<rparr> ''*[@id='x']'' ''class'' ''x y'' =
     Inr [Node (Element ''div'' [(''class'', ''x y''), (''id'', ''x'')] (Some ''both'') [] None)]"
  by (intro conjI impI balanced_quotes_example by_tag_odd by_attribute_odd by_text_odd nth_child_odd containing_text_odd
        attribute_containing_text_odd by_class_odd by_id_odd by_data_attribute_odd by_name_odd)
     (simp_all add: get_nodes_by_tag_def get_nodes_by_attribute_def get_nodes_by_text_def
        get_nth_child_def get_nodes_containing_text_def get_nodes_by_attribute_containing_text_def
        get_nodes_by_class_def get_nodes_by_id_def get_nodes_by_data_attribute_def
        get_nodes_by_name_def)

theorem quotes_not_escaped_witness:
  "odd_quotes ''a'b'' \<and> odd_quotes (''a'b'' @ ''href'' @ ''x'') \<and> odd_quotes (''a'b'' @ ''A'') \<and>
   odd_quotes (''a'b'' @ ''p'') \<and> odd_quotes (''a'b'' @ ''href'' @ ''A'') \<and>
   odd_quotes ''it's'' \<and> odd_quotes (''k'' @ ''it's'') \<and>
   get_nodes_by_tag reject_rest \<lparr>tree = links_doc, base_url = None\<rparr> ''a'b'' = Inl XPathEvalError \<and>
   get_nodes_by_attribute reject_rest \<lparr>tree = links_doc, base_url = None\<rparr> ''a'b'' ''href'' ''x'' =
     Inl XPathEvalError \<and>
   get_nodes_by_text reject_rest \<lparr>tree = links_doc, base_url = None\<rparr> ''a'b'' ''A'' =
     Inl XPathEvalError \<and>
   get_nth_child reject_rest \<lparr>tree = links_doc, base_url = None\<rparr> ''a'b'' ''p'' 1 =
     Inl XPathEvalError \<and>
   get_nodes_containing_text reject_rest \<lparr>tree = links_doc, base_url = None\<rparr> ''a'b'' ''A'' =
     Inl XPathEvalError \<and>
   get_nodes_by_attribute_containing_text reject_rest \<lparr>tree = links_doc, base_url = None\<rparr>
       ''a'b'' ''href'' ''A'' = Inl XPathEvalError \<and>
   get_nodes_by_class reject_rest \<lparr>tree = links_doc, base_url = None\<rparr> ''it's'' =
     Inl XPathEvalError \<and>
   get_nodes_by_id reject_rest \<lparr>tree = links_doc, base_url = None\<rparr> ''it's'' = Inl XPathEvalError \<and>
   get_nodes_by_data_attribute reject_rest \<lparr>tree = links_doc, base_url = None\<rparr> ''k'' ''it's'' =
     Inl XPathEvalError \<and>
   get_nodes_by_name reject_rest \<lparr>tree = links_doc, base_url = None\<rparr> ''it's'' =
     Inl XPathEvalError"
proof -
  have h: "odd_quotes ''a'b''" "odd_quotes (''a'b'' @ ''href'' @ ''x'')" "odd_quotes (''a'b'' @ ''A'')"
    "odd_quotes (''a'b'' @ ''p'')" "odd_quotes (''a'b'' @ ''href'' @ ''A'')"
    "odd_quotes ''it's''" "odd_quotes (''k'' @ ''it's'')"
    by (simp_all add: odd_quotes_def xml_char_def sq_def dq_def)
  note th = quotes_not_escaped [where lx = reject_rest
        and self = "\<lparr>tree = links_doc, base_url = None\<rparr>" and tagname = "''a'b''"
        and attribute = "''href''" and val = "''x''" and wanted = "''A''" and parent = "''a'b''"
        and child = "''p''" and n = 1 and classname = "''it's''" and element_id = "''it's''"
        and data_name = "''k''" and data_val = "''it's''" and name_val = "''it's''"]
  show ?thesis using h th by blast
qed

subsection \<open>The object is not changed\<close>








end
